theory Spec2Isabelle
  imports Complex_Main "HOL-Library.Sublist"
begin

section \<open>Chunks\<close>

text \<open>
  A chunk is a Python dict with optional keys. Each key the core reads is a field that is
  \<open>None\<close> when the key is absent. Strings are lists of characters, one element per
  character of the Python \<open>str\<close>; the scores stored on a chunk are Python floats, each a
  real number (NaN is outside the model).
\<close>

record chunk =
  chunk_id :: "string option"
  url :: "string option"
  content :: "string option"
  full_content :: "string option"
  source_query :: "string option"
  score :: "real option"
  rerank_score :: "real option"

text \<open>\<^verbatim>\<open>chunk.get("chunk_id", "")\<close>, \<^verbatim>\<open>chunk.get("url", "unknown")\<close>,
  \<^verbatim>\<open>x.get("score", 0)\<close> and \<^verbatim>\<open>doc.get("content", "")\<close>.\<close>

definition get_chunk_id :: "chunk \<Rightarrow> string" where
  "get_chunk_id c = (case chunk_id c of None \<Rightarrow> [] | Some s \<Rightarrow> s)"

definition get_url :: "chunk \<Rightarrow> string" where
  "get_url c = (case url c of None \<Rightarrow> ''unknown'' | Some u \<Rightarrow> u)"

definition get_score :: "chunk \<Rightarrow> real" where
  "get_score c = (case score c of None \<Rightarrow> 0 | Some s \<Rightarrow> s)"

definition get_content :: "chunk \<Rightarrow> string" where
  "get_content c = (case content c of None \<Rightarrow> [] | Some s \<Rightarrow> s)"

section \<open>Multi-query retriever: merging\<close>

text \<open>
  The deduplication loop of \<^verbatim>\<open>_merge_chunks\<close>: \<open>seen_ids\<close> is the set of identifiers
  met so far, \<open>deduped\<close> the list built so far. The test \<^verbatim>\<open>chunk_id and ...\<close> is the
  truth value of the string: false for the empty string.
\<close>

fun dedup_loop :: "string set \<Rightarrow> chunk list \<Rightarrow> chunk list \<Rightarrow> chunk list" where
  "dedup_loop seen_ids deduped [] = deduped"
| "dedup_loop seen_ids deduped (c # cs) =
     (let cid = get_chunk_id c in
      if cid \<noteq> [] \<and> cid \<notin> seen_ids
      then dedup_loop (insert cid seen_ids) (deduped @ [c]) cs
      else dedup_loop seen_ids deduped cs)"

text \<open>
  \<^verbatim>\<open>deduped.sort(key=lambda x: x.get("score", 0), reverse=True)\<close>: Python's sort is
  stable, also with \<^verbatim>\<open>reverse=True\<close>, so it is the stable insertion sort of the library on
  the negated key.
\<close>

definition sort_by_score :: "chunk list \<Rightarrow> chunk list" where
  "sort_by_score cs = sort_key (\<lambda>x. - get_score x) cs"

text \<open>
  The diversity loop: \<open>url_counts\<close> is the \<^verbatim>\<open>defaultdict(int)\<close>, a total function that
  is 0 on every key not yet counted.
\<close>

fun diversity_loop :: "(string \<Rightarrow> nat) \<Rightarrow> chunk list \<Rightarrow> chunk list \<Rightarrow> chunk list" where
  "diversity_loop url_counts diverse_chunks [] = diverse_chunks"
| "diversity_loop url_counts diverse_chunks (c # cs) =
     (let u = get_url c in
      if url_counts u < 3
      then diversity_loop (url_counts(u := url_counts u + 1)) (diverse_chunks @ [c]) cs
      else diversity_loop url_counts diverse_chunks cs)"

definition merge_chunks :: "chunk list \<Rightarrow> chunk list" where
  "merge_chunks chunks =
     (if chunks = [] then []
      else let deduped = dedup_loop {} [] chunks;
               deduped = sort_by_score deduped;
               diverse_chunks = diversity_loop (\<lambda>_. 0) [] deduped
           in take 6 diverse_chunks)"

section \<open>Multi-query retriever: fan-out\<close>

text \<open>
  \<^verbatim>\<open>retrieve_multi\<close> calls \<^verbatim>\<open>self.retriever.retrieve(sub_q, top_k_initial=4,
  top_k_final=top_k_per_query)\<close> and reads \<^verbatim>\<open>result["refined_chunks"]\<close>. The retriever
  class is a collaborator; it is a parameter here: a function from the sub-query and the two
  limits to the refined chunks, or to the exception the call raises. The loop has no
  \<^verbatim>\<open>try\<close>, so an exception leaves \<^verbatim>\<open>retrieve_multi\<close> at once.
\<close>

datatype error = RetrievalError string

type_synonym retriever = "string \<Rightarrow> int \<Rightarrow> int \<Rightarrow> error + chunk list"

record multi_stats =
  total_queries :: nat
  total_retrieved :: nat
  after_merge :: nat

record multi_result =
  merged_chunks :: "chunk list"
  per_query_results :: "string \<rightharpoonup> chunk list"
  stats :: multi_stats

text \<open>\<^verbatim>\<open>for chunk in chunks: chunk["source_query"] = sub_q\<close>. The retriever is taken to
  return fresh dicts on each call, so the tag of one sub-query does not overwrite another's.\<close>

definition tag_chunks :: "string \<Rightarrow> chunk list \<Rightarrow> chunk list" where
  "tag_chunks sub_q chunks = map (\<lambda>chunk. chunk\<lparr>source_query := Some sub_q\<rparr>) chunks"

fun retrieve_loop ::
  "retriever \<Rightarrow> int \<Rightarrow> (string \<rightharpoonup> chunk list) \<Rightarrow> chunk list \<Rightarrow> string list
     \<Rightarrow> error + ((string \<rightharpoonup> chunk list) \<times> chunk list)" where
  "retrieve_loop retrieve top_k per_query all_chunks [] = Inr (per_query, all_chunks)"
| "retrieve_loop retrieve top_k per_query all_chunks (sub_q # rest) =
     (case retrieve sub_q 4 top_k of
        Inl e \<Rightarrow> Inl e
      | Inr chunks \<Rightarrow>
          let chunks = tag_chunks sub_q chunks
          in retrieve_loop retrieve top_k (per_query(sub_q \<mapsto> chunks)) (all_chunks @ chunks) rest)"

definition retrieve_multi :: "retriever \<Rightarrow> string list \<Rightarrow> int \<Rightarrow> error + multi_result" where
  "retrieve_multi retrieve sub_queries top_k_per_query =
     (case retrieve_loop retrieve top_k_per_query Map.empty [] sub_queries of
        Inl e \<Rightarrow> Inl e
      | Inr (per_query, all_chunks) \<Rightarrow>
          let merged = merge_chunks all_chunks
          in Inr \<lparr>merged_chunks = merged,
                  per_query_results = per_query,
                  stats = \<lparr>total_queries = length sub_queries,
                           total_retrieved = length all_chunks,
                           after_merge = length merged\<rparr>\<rparr>)"

section \<open>Cross-encoder reranker\<close>

subsection \<open>Floating-point numbers\<close>

text \<open>
  The scores are computed by numpy in the floating-point type of the array that the model
  returns. A float is a real number here, and every operation is the exact operation
  followed by IEEE 754 rounding to nearest, ties to even, in a binary format with
  \<open>precision\<close> significant bits and exponents from \<open>emin\<close> to \<open>emax\<close>; numbers below
  the normal range are rounded on the subnormal grid. \<open>None\<close> stands for an infinity, the
  result of an overflow. NaN is outside the model, and \<^verbatim>\<open>np.exp\<close> is taken to be correctly
  rounded.
\<close>

datatype np_dtype = Float16 | Float32 | Float64

fun precision :: "np_dtype \<Rightarrow> nat" where
  "precision Float16 = 11"
| "precision Float32 = 24"
| "precision Float64 = 53"

fun emin :: "np_dtype \<Rightarrow> int" where
  "emin Float16 = - 14"
| "emin Float32 = - 126"
| "emin Float64 = - 1022"

fun emax :: "np_dtype \<Rightarrow> int" where
  "emax Float16 = 15"
| "emax Float32 = 127"
| "emax Float64 = 1023"

text \<open>The largest finite float of a format.\<close>

definition max_float :: "np_dtype \<Rightarrow> real" where
  "max_float dt = (2 - 2 powr (1 - real (precision dt))) * 2 powr (real_of_int (emax dt))"

text \<open>Rounding of a real number to the nearest integer, a tie going to the even one.\<close>

definition round_half_even :: "real \<Rightarrow> int" where
  "round_half_even t =
     (let f = \<lfloor>t\<rfloor>
      in if t - real_of_int f < 1/2 then f
         else if t - real_of_int f > 1/2 then f + 1
         else if even f then f else f + 1)"

text \<open>
  Rounding of a real number to the format: \<open>u\<close> is the distance between neighbouring floats
  around \<open>y\<close> (the unit in the last place), the result is the multiple of \<open>u\<close> nearest to
  \<open>y\<close>, and a result beyond the largest finite float is an infinity.
\<close>

definition fl_round :: "np_dtype \<Rightarrow> real \<Rightarrow> real option" where
  "fl_round dt y =
     (if y = 0 then Some 0
      else let e = max \<lfloor>log 2 \<bar>y\<bar>\<rfloor> (emin dt);
               u = 2 powr (real_of_int (e - int (precision dt) + 1));
               r = u * real_of_int (round_half_even (\<bar>y\<bar> / u))
           in if r > max_float dt then None else Some (sgn y * r))"

text \<open>
  \<^verbatim>\<open>1 / (1 + np.exp(-x))\<close> on one element \<open>x\<close> of the array: the negation is exact, the
  exponential, the sum and the quotient are rounded. When the exponential or the sum
  overflows to infinity, the quotient \<^verbatim>\<open>1 / inf\<close> is 0.0. The last quotient cannot
  overflow, its divisor being at least 1 (lemma \<open>np_logistic_range\<close> below).
\<close>

definition np_logistic :: "np_dtype \<Rightarrow> real \<Rightarrow> real" where
  "np_logistic dt x =
     (case fl_round dt (exp (- x)) of
        None \<Rightarrow> 0
      | Some e \<Rightarrow>
          (case fl_round dt (1 + e) of
             None \<Rightarrow> 0
           | Some w \<Rightarrow> (case fl_round dt (1 / w) of None \<Rightarrow> 0 | Some s \<Rightarrow> s)))"

subsection \<open>The reranker\<close>

text \<open>
  The reranker holds the cross-encoder model and the two thresholds set by \<^verbatim>\<open>__init__\<close>.
  The model is a collaborator: \<^verbatim>\<open>self.model.predict(pairs)\<close> takes the list of
  \<^verbatim>\<open>[query, content]\<close> pairs and returns a numpy array of raw scores (logits): its
  floating-point type and its elements.
\<close>

record ndarray =
  dtype :: np_dtype
  elems :: "real list"

record reranker =
  predict :: "(string \<times> string) list \<Rightarrow> ndarray"
  high_threshold :: real
  low_threshold :: real

definition init_reranker :: "((string \<times> string) list \<Rightarrow> ndarray) \<Rightarrow> reranker" where
  "init_reranker model = \<lparr>predict = model, high_threshold = 0.5, low_threshold = 0.2\<rparr>"

text \<open>
  \<^verbatim>\<open>content = doc.get("full_content") or doc.get("content", "")\<close> followed by
  \<^verbatim>\<open>content = content[:1000] if len(content) > 1000 else content\<close>. Python's \<^verbatim>\<open>or\<close>
  takes the right operand when the left one is absent or the empty string.
\<close>

definition scoring_text :: "chunk \<Rightarrow> string" where
  "scoring_text doc =
     (let content = (case full_content doc of
                       None \<Rightarrow> get_content doc
                     | Some s \<Rightarrow> if s \<noteq> [] then s else get_content doc)
      in if length content > 1000 then take 1000 content else content)"

text \<open>\<^verbatim>\<open>get_scores\<close>: the pairs are scored by the model, and
  \<^verbatim>\<open>1 / (1 + np.exp(-np.array(scores)))\<close> is computed element by element in the type of the
  array; \<^verbatim>\<open>tolist()\<close> gives the list of the results.\<close>

definition get_scores :: "reranker \<Rightarrow> string \<Rightarrow> chunk list \<Rightarrow> real list" where
  "get_scores rr query documents =
     (if documents = [] then []
      else let pairs = map (\<lambda>doc. (query, scoring_text doc)) documents;
               scores = predict rr pairs
           in map (np_logistic (dtype scores)) (elems scores))"

record graded =
  correct :: "chunk list"
  ambiguous :: "chunk list"
  incorrect :: "chunk list"

text \<open>The loop \<^verbatim>\<open>for doc, score in zip(documents, scores)\<close> of \<^verbatim>\<open>grade_documents\<close>:
  the score is written on the document, which is then appended to one bucket.\<close>

fun grade_loop :: "reranker \<Rightarrow> graded \<Rightarrow> (chunk \<times> real) list \<Rightarrow> graded" where
  "grade_loop rr g [] = g"
| "grade_loop rr g ((doc, s) # rest) =
     (let doc = doc\<lparr>rerank_score := Some s\<rparr>
      in if s \<ge> high_threshold rr
         then grade_loop rr (g\<lparr>correct := correct g @ [doc]\<rparr>) rest
         else if s \<ge> low_threshold rr
         then grade_loop rr (g\<lparr>ambiguous := ambiguous g @ [doc]\<rparr>) rest
         else grade_loop rr (g\<lparr>incorrect := incorrect g @ [doc]\<rparr>) rest)"

definition grade_documents :: "reranker \<Rightarrow> string \<Rightarrow> chunk list \<Rightarrow> graded" where
  "grade_documents rr query documents =
     (if documents = [] then \<lparr>correct = [], ambiguous = [], incorrect = []\<rparr>
      else let scores = get_scores rr query documents
           in grade_loop rr \<lparr>correct = [], ambiguous = [], incorrect = []\<rparr>
                (zip documents scores))"

text \<open>The trust level of a graded document, for stating that grading is monotone:
  2 in \<open>correct\<close>, 1 in \<open>ambiguous\<close>, 0 otherwise.\<close>

definition bucket_rank :: "graded \<Rightarrow> chunk \<Rightarrow> nat" where
  "bucket_rank g doc =
     (if doc \<in> set (correct g) then 2 else if doc \<in> set (ambiguous g) then 1 else 0)"

section \<open>Action decision\<close>




section \<open>Resilient model invocation\<close>

text \<open>
  Modelled from the spec: the class \<^verbatim>\<open>GroqLLM\<close> (module \<^verbatim>\<open>src.generation.groq_llm\<close>)
  with its method \<^verbatim>\<open>_call_with_failover\<close> is not among the sources; only its caller
  \<^verbatim>\<open>test_rate_limiting\<close> is, which names the fields \<^verbatim>\<open>model_pool\<close>,
  \<^verbatim>\<open>failure_counts\<close> and \<^verbatim>\<open>max_failures\<close>. The definitions follow section 4.5 of the
  specification: models are attempted in pool order, skipping any whose failure count has
  reached \<open>max_failures\<close>; a success resets that model's count to 0 and returns the response;
  a failure (a rate-limit signal included) increments the count and moves on; when no model
  is left the result is null. The language-model call is a parameter. The list of attempted
  models is returned too, so that "attempts no model" can be stated. Caching is disabled and
  the back-off delay is not modelled.
\<close>

datatype call_outcome = Success string | RateLimited | Failed

record llm_state =
  model_pool :: "string list"
  failure_counts :: "string \<Rightarrow> nat"
  max_failures :: nat

text \<open>Modelled from the spec: the walk over the pool of \<^verbatim>\<open>_call_with_failover\<close> (section
  4.5), whose source is missing. \<open>counts\<close> are the failure counts, \<open>attempted\<close> the models
  called so far.\<close>

fun failover_loop ::
  "(string \<Rightarrow> string \<Rightarrow> call_outcome) \<Rightarrow> nat \<Rightarrow> string \<Rightarrow> (string \<Rightarrow> nat) \<Rightarrow> string list
     \<Rightarrow> string list \<Rightarrow> string option \<times> (string \<Rightarrow> nat) \<times> string list" where
  "failover_loop llm_call maxf prompt counts attempted [] = (None, counts, attempted)"
| "failover_loop llm_call maxf prompt counts attempted (m # ms) =
     (if counts m \<ge> maxf then failover_loop llm_call maxf prompt counts attempted ms
      else case llm_call m prompt of
             Success response \<Rightarrow> (Some response, counts(m := 0), attempted @ [m])
           | RateLimited \<Rightarrow>
               failover_loop llm_call maxf prompt (counts(m := counts m + 1)) (attempted @ [m]) ms
           | Failed \<Rightarrow>
               failover_loop llm_call maxf prompt (counts(m := counts m + 1)) (attempted @ [m]) ms)"

text \<open>Modelled from the spec: \<^verbatim>\<open>_call_with_failover\<close> (section 4.5), whose source is missing:
  the walk over \<open>model_pool\<close>, the new failure counts stored in the state.\<close>

definition call_with_failover ::
  "(string \<Rightarrow> string \<Rightarrow> call_outcome) \<Rightarrow> llm_state \<Rightarrow> string
     \<Rightarrow> string option \<times> llm_state \<times> string list" where
  "call_with_failover llm_call st prompt =
     (case failover_loop llm_call (max_failures st) prompt (failure_counts st) [] (model_pool st) of
        (response, counts, attempted) \<Rightarrow> (response, st\<lparr>failure_counts := counts\<rparr>, attempted))"

section \<open>Input gate\<close>

text \<open>
  Modelled from the spec: the class \<^verbatim>\<open>SecurityManager\<close> (module
  \<^verbatim>\<open>src.security.security\<close>) with its method \<^verbatim>\<open>validate_and_limit\<close> is not among the
  sources; only its caller \<^verbatim>\<open>test_input_sanitization\<close> is. The definitions follow section
  4.1 of the specification: three checks in order, stopping at the first failure. (1) Length
  bounds, with the reasons "too short" and "too long". (2) Abuse patterns: the configured
  injection signatures (predicates on the text, a parameter) or a single character repeated
  more than the configured run length. (3) The per-user sliding window: timestamps older
  than \<open>window_seconds\<close> are purged, then the request is rejected if \<open>max_requests\<close> or
  more remain; otherwise the new timestamp is recorded. The clock is a parameter: the time
  of the request. Only the calling user's window is changed.
\<close>

datatype reject_reason = TooShort | TooLong | AbusePattern | RateLimitExceeded

record security_verdict =
  allowed :: bool
  reason :: "reject_reason option"

record security_config =
  min_length :: nat
  max_length :: nat
  signatures :: "(string \<Rightarrow> bool) list"
  spam_run_length :: nat
  max_requests :: nat
  window_seconds :: real

text \<open>Modelled from the spec: the repeated-character signature of section 4.1, whose source
  is missing. \<open>leading_run c xs\<close> is the number of leading characters of \<open>xs\<close> equal to \<open>c\<close>,
  \<open>max_run\<close> the longest run of one repeated character in a text.\<close>

fun leading_run :: "char \<Rightarrow> string \<Rightarrow> nat" where
  "leading_run c [] = 0"
| "leading_run c (x # xs) = (if x = c then Suc (leading_run c xs) else 0)"

fun max_run :: "string \<Rightarrow> nat" where
  "max_run [] = 0"
| "max_run (x # xs) = max (Suc (leading_run x xs)) (max_run xs)"

text \<open>Modelled from the spec: the second check of \<^verbatim>\<open>validate_and_limit\<close> (section 4.1), whose
  source is missing: some injection signature matches, or one character is repeated more
  than the configured run length.\<close>

definition matches_abuse :: "security_config \<Rightarrow> string \<Rightarrow> bool" where
  "matches_abuse cfg query_text =
     (list_ex (\<lambda>p. p query_text) (signatures cfg) \<or> max_run query_text > spam_run_length cfg)"

definition reject :: "reject_reason \<Rightarrow> security_verdict" where
  "reject r = \<lparr>allowed = False, reason = Some r\<rparr>"

definition accept :: security_verdict where
  "accept = \<lparr>allowed = True, reason = None\<rparr>"

text \<open>Modelled from the spec: \<^verbatim>\<open>validate_and_limit\<close> (section 4.1), whose source is missing.
  The result is the verdict and the windows of all users after the call.\<close>

definition validate_and_limit ::
  "security_config \<Rightarrow> (string \<Rightarrow> real list) \<Rightarrow> string \<Rightarrow> string \<Rightarrow> real
     \<Rightarrow> security_verdict \<times> (string \<Rightarrow> real list)" where
  "validate_and_limit cfg windows user_id query_text now =
     (if length query_text < min_length cfg then (reject TooShort, windows)
      else if length query_text > max_length cfg then (reject TooLong, windows)
      else if matches_abuse cfg query_text then (reject AbusePattern, windows)
      else let recent = filter (\<lambda>t. now - t \<le> window_seconds cfg) (windows user_id)
           in if length recent \<ge> max_requests cfg
              then (reject RateLimitExceeded, windows(user_id := recent))
              else (accept, windows(user_id := recent @ [now])))"

text \<open>A query that passes the first two checks of the gate.\<close>

definition valid_query :: "security_config \<Rightarrow> string \<Rightarrow> bool" where
  "valid_query cfg q \<longleftrightarrow>
     min_length cfg \<le> length q \<and> length q \<le> max_length cfg \<and> \<not> matches_abuse cfg q"

text \<open>A sequence of requests \<open>(user_id, query_text, time)\<close> served one after the other.\<close>

fun validate_all ::
  "security_config \<Rightarrow> (string \<Rightarrow> real list) \<Rightarrow> (string \<times> string \<times> real) list
     \<Rightarrow> security_verdict list \<times> (string \<Rightarrow> real list)" where
  "validate_all cfg windows [] = ([], windows)"
| "validate_all cfg windows ((user_id, query_text, now) # rest) =
     (case validate_and_limit cfg windows user_id query_text now of
        (v, windows') \<Rightarrow>
          (case validate_all cfg windows' rest of (vs, windows'') \<Rightarrow> (v # vs, windows'')))"

text \<open>The gate of \<^verbatim>\<open>ExceptionTester\<close>: \<^verbatim>\<open>SecurityManager(max_length=500, max_requests=10,
  window_seconds=60)\<close>, with the minimum length 3 and the run length 10 of the test's
  comments, and the given injection signatures.\<close>

definition test_config :: "(string \<Rightarrow> bool) list \<Rightarrow> security_config" where
  "test_config sigs =
     \<lparr>min_length = 3, max_length = 500, signatures = sigs, spam_run_length = 10,
      max_requests = 10, window_seconds = 60\<rparr>"

section \<open>Example data\<close>

definition mk_chunk :: "string \<Rightarrow> string \<Rightarrow> real \<Rightarrow> real \<Rightarrow> chunk" where
  "mk_chunk cid u s r =
     \<lparr>chunk_id = Some cid, url = Some u, content = Some ''text'', full_content = None,
      source_query = None, score = Some s, rerank_score = Some r\<rparr>"

text \<open>Four chunks of one url, in ascending order of score.\<close>

definition four_chunks :: "chunk list" where
  "four_chunks =
     [mk_chunk ''c1'' ''u'' (1/10) 0, mk_chunk ''c2'' ''u'' (2/10) 0,
      mk_chunk ''c3'' ''u'' (3/10) 0, mk_chunk ''c4'' ''u'' (4/10) 0]"

definition chunk_no_id :: chunk where
  "chunk_no_id =
     \<lparr>chunk_id = None, url = Some ''u'', content = Some ''text'', full_content = None,
      source_query = None, score = Some 1, rerank_score = None\<rparr>"

definition doc_empty_full :: chunk where
  "doc_empty_full =
     \<lparr>chunk_id = Some ''d'', url = None, content = Some ''abc'', full_content = Some [],
      source_query = None, score = None, rerank_score = None\<rparr>"

text \<open>A scoring model for the examples: a \<open>Float64\<close> array with logit 0 for the text
  \<open>abc\<close> (score 1/2) and \<open>- ln 7\<close> for any other text (score 1/8).\<close>

definition example_model :: "(string \<times> string) list \<Rightarrow> ndarray" where
  "example_model pairs =
     \<lparr>dtype = Float64, elems = map (\<lambda>(q, t). if t = ''abc'' then 0 else - ln 7) pairs\<rparr>"

text \<open>A scoring model that returns the logit 100 for every pair, as a \<open>Float64\<close> array.\<close>

definition confident_model :: "(string \<times> string) list \<Rightarrow> ndarray" where
  "confident_model pairs = \<lparr>dtype = Float64, elems = map (\<lambda>_. 100) pairs\<rparr>"

text \<open>Ten requests, one per second from time 0 to time 9.\<close>

definition ten_requests :: "(string \<times> real) list" where
  "ten_requests =
     [(''hello'', 0), (''hello'', 1), (''hello'', 2), (''hello'', 3), (''hello'', 4),
      (''hello'', 5), (''hello'', 6), (''hello'', 7), (''hello'', 8), (''hello'', 9)]"

definition failing_retriever :: retriever where
  "failing_retriever sub_q top_k_initial top_k_final =
     (if sub_q = ''a'' then Inl (RetrievalError ''timeout'')
      else Inr [mk_chunk ''c1'' ''u'' (1/2) (1/2)])"

definition ok_retriever :: retriever where
  "ok_retriever sub_q top_k_initial top_k_final = Inr [mk_chunk sub_q ''u'' (1/2) (1/2)]"

section \<open>Properties of the merge\<close>

subsection \<open>Deduplication\<close>

lemma dedup_loop_acc: "dedup_loop seen acc cs = acc @ dedup_loop seen [] cs"
proof (induction cs arbitrary: seen acc)
  case Nil
  show ?case by simp
next
  case (Cons c cs)
  show ?case
    using Cons.IH [of "insert (get_chunk_id c) seen" "acc @ [c]"]
          Cons.IH [of "insert (get_chunk_id c) seen" "[c]"]
          Cons.IH [of seen acc]
    by (simp add: Let_def)
qed

lemma dedup_loop_Cons:
  "dedup_loop seen [] (c # cs) =
     (if get_chunk_id c \<noteq> [] \<and> get_chunk_id c \<notin> seen
      then c # dedup_loop (insert (get_chunk_id c) seen) [] cs
      else dedup_loop seen [] cs)"
  using dedup_loop_acc [of "insert (get_chunk_id c) seen" "[c]" cs]
  by (simp add: Let_def)

lemma dedup_loop_subseq: "subseq (dedup_loop seen [] cs) cs"
proof (induction cs arbitrary: seen)
  case Nil
  show ?case by simp
next
  case (Cons c cs)
  show ?case
    unfolding dedup_loop_Cons using Cons.IH by (simp add: list_emb_Cons)
qed

lemma dedup_loop_ids:
  "x \<in> set (dedup_loop seen [] cs) \<Longrightarrow> get_chunk_id x \<noteq> [] \<and> get_chunk_id x \<notin> seen"
proof (induction cs arbitrary: seen)
  case Nil
  then show ?case by simp
next
  case (Cons c cs)
  then show ?case
    unfolding dedup_loop_Cons by (fastforce split: if_splits)
qed

lemma dedup_loop_distinct: "distinct (map get_chunk_id (dedup_loop seen [] cs))"
proof (induction cs arbitrary: seen)
  case Nil
  show ?case by simp
next
  case (Cons c cs)
  have "get_chunk_id c \<notin> get_chunk_id ` set (dedup_loop (insert (get_chunk_id c) seen) [] cs)"
  proof
    assume "get_chunk_id c \<in> get_chunk_id ` set (dedup_loop (insert (get_chunk_id c) seen) [] cs)"
    then obtain x where x: "x \<in> set (dedup_loop (insert (get_chunk_id c) seen) [] cs)"
      and eq: "get_chunk_id c = get_chunk_id x" by blast
    from dedup_loop_ids [OF x] eq show False by simp
  qed
  then show ?case
    unfolding dedup_loop_Cons using Cons.IH by simp
qed

lemma dedup_loop_id:
  "distinct (map get_chunk_id cs) \<Longrightarrow>
   \<forall>x \<in> set cs. get_chunk_id x \<noteq> [] \<and> get_chunk_id x \<notin> seen \<Longrightarrow>
   dedup_loop seen [] cs = cs"
proof (induction cs arbitrary: seen)
  case Nil
  show ?case by simp
next
  case (Cons c cs)
  have "\<forall>x \<in> set cs. get_chunk_id x \<noteq> [] \<and> get_chunk_id x \<notin> insert (get_chunk_id c) seen"
  proof
    fix x assume x: "x \<in> set cs"
    then have "get_chunk_id x \<in> get_chunk_id ` set cs" by (rule imageI)
    moreover have "get_chunk_id c \<notin> get_chunk_id ` set cs" using Cons.prems(1) by simp
    ultimately have "get_chunk_id x \<noteq> get_chunk_id c" by metis
    then show "get_chunk_id x \<noteq> [] \<and> get_chunk_id x \<notin> insert (get_chunk_id c) seen"
      using Cons.prems(2) x by simp
  qed
  moreover have "distinct (map get_chunk_id cs)" using Cons.prems(1) by simp
  ultimately have "dedup_loop (insert (get_chunk_id c) seen) [] cs = cs"
    by (intro Cons.IH)
  then show ?case
    unfolding dedup_loop_Cons using Cons.prems by simp
qed

subsection \<open>Diversity walk\<close>

lemma diversity_loop_acc: "diversity_loop cnt acc cs = acc @ diversity_loop cnt [] cs"
proof (induction cs arbitrary: cnt acc)
  case Nil
  show ?case by simp
next
  case (Cons c cs)
  define cnt' where "cnt' = cnt(get_url c := cnt (get_url c) + 1)"
  have a: "diversity_loop cnt' (acc @ [c]) cs = acc @ c # diversity_loop cnt' [] cs"
    using Cons.IH [of cnt' "acc @ [c]"] by simp
  have b: "diversity_loop cnt' [c] cs = c # diversity_loop cnt' [] cs"
    using Cons.IH [of cnt' "[c]"] by simp
  have d: "diversity_loop cnt acc cs = acc @ diversity_loop cnt [] cs"
    by (rule Cons.IH)
  show ?case
    unfolding diversity_loop.simps Let_def cnt'_def [symmetric]
    by (simp only: a b d append_Nil if_distrib [of "\<lambda>xs. acc @ xs"])
qed

lemma diversity_loop_Cons:
  "diversity_loop cnt [] (c # cs) =
     (if cnt (get_url c) < 3
      then c # diversity_loop (cnt(get_url c := cnt (get_url c) + 1)) [] cs
      else diversity_loop cnt [] cs)"
  unfolding diversity_loop.simps Let_def
  by (simp only: append_Nil diversity_loop_acc [of _ "[c]" cs] append_Cons)

lemma diversity_loop_subseq: "subseq (diversity_loop cnt [] cs) cs"
proof (induction cs arbitrary: cnt)
  case Nil
  show ?case by simp
next
  case (Cons c cs)
  show ?case
    unfolding diversity_loop_Cons using Cons.IH by (simp add: list_emb_Cons)
qed

lemma diversity_loop_bound:
  "cnt u \<le> 3 \<Longrightarrow>
   cnt u + length (filter (\<lambda>c. get_url c = u) (diversity_loop cnt [] cs)) \<le> 3"
proof (induction cs arbitrary: cnt)
  case Nil
  then show ?case by simp
next
  case (Cons c cs)
  show ?case
  proof (cases "cnt (get_url c) < 3")
    case True
    define cnt' where "cnt' = cnt(get_url c := cnt (get_url c) + 1)"
    have cu: "cnt' u = (if u = get_url c then cnt u + 1 else cnt u)"
      by (simp add: cnt'_def)
    have "cnt' u \<le> 3" using True Cons.prems cu by simp
    then have ih: "cnt' u + length (filter (\<lambda>c. get_url c = u) (diversity_loop cnt' [] cs)) \<le> 3"
      by (rule Cons.IH)
    have step: "diversity_loop cnt [] (c # cs) = c # diversity_loop cnt' [] cs"
      unfolding diversity_loop_Cons cnt'_def using True by simp
    show ?thesis
      unfolding step using ih cu by (cases "u = get_url c") simp_all
  next
    case False
    have step: "diversity_loop cnt [] (c # cs) = diversity_loop cnt [] cs"
      unfolding diversity_loop_Cons using False by simp
    show ?thesis
      unfolding step using Cons.prems by (rule Cons.IH)
  qed
qed

lemma diversity_loop_id:
  "\<forall>u. cnt u + length (filter (\<lambda>c. get_url c = u) cs) \<le> 3 \<Longrightarrow>
   diversity_loop cnt [] cs = cs"
proof (induction cs arbitrary: cnt)
  case Nil
  show ?case by simp
next
  case (Cons c cs)
  let ?cnt = "cnt(get_url c := cnt (get_url c) + 1)"
  have lt: "cnt (get_url c) < 3"
    using Cons.prems [rule_format, of "get_url c"] by simp
  have "\<forall>u. ?cnt u + length (filter (\<lambda>c. get_url c = u) cs) \<le> 3"
  proof
    fix u
    show "?cnt u + length (filter (\<lambda>c. get_url c = u) cs) \<le> 3"
      using Cons.prems [rule_format, of u] by (cases "u = get_url c") auto
  qed
  then have "diversity_loop ?cnt [] cs = cs" by (rule Cons.IH)
  then show ?case
    unfolding diversity_loop_Cons using lt by simp
qed

subsection \<open>Subsequences\<close>


lemma subseq_distinct_map:
  assumes "subseq xs ys" and "distinct (map f ys)"
  shows "distinct (map f xs)"
proof -
  from assms(1) obtain N where "xs = nths ys N"
    unfolding subseq_conv_nths by blast
  then have "map f xs = nths (map f ys) N" by (simp add: nths_map)
  then show ?thesis using assms(2) by simp
qed

lemma subseq_sorted_map:
  fixes f :: "'a \<Rightarrow> 'b::linorder"
  assumes "subseq xs ys" and "sorted (map f ys)"
  shows "sorted (map f xs)"
proof -
  from assms(1) obtain N where "xs = nths ys N"
    unfolding subseq_conv_nths by blast
  then have "map f xs = nths (map f ys) N" by (simp add: nths_map)
  then show ?thesis using assms(2) by (simp add: sorted_nths)
qed

lemma subseq_filter_length:
  assumes "subseq xs ys"
  shows "length (filter P xs) \<le> length (filter P ys)"
proof -
  from assms have "subseq (filter P xs) (filter P ys)" by (rule subseq_filter)
  then show ?thesis by (rule list_emb_length)
qed

lemma subseq_in_set:
  assumes "subseq xs ys" and "x \<in> set xs"
  shows "x \<in> set ys"
proof -
  from assms(1) obtain N where "xs = nths ys N"
    unfolding subseq_conv_nths by blast
  with assms(2) have "x \<in> set (nths ys N)" by simp
  then show ?thesis by (rule in_set_nthsD)
qed

subsection \<open>Stages of the merge\<close>

lemma sort_by_score_sorted: "sorted (map (\<lambda>x. - get_score x) (sort_by_score cs))"
  unfolding sort_by_score_def by (rule sorted_sort_key)

lemma sort_by_score_distinct_ids:
  "distinct (map get_chunk_id cs) \<Longrightarrow> distinct (map get_chunk_id (sort_by_score cs))"
  unfolding sort_by_score_def by (simp add: distinct_map)

lemma merge_chunks_subseq:
  "subseq (merge_chunks chunks) (sort_by_score (dedup_loop {} [] chunks))"
proof (cases "chunks = []")
  case True
  then show ?thesis by (simp add: merge_chunks_def)
next
  case False
  have "subseq (take 6 (diversity_loop (\<lambda>_. 0) [] (sort_by_score (dedup_loop {} [] chunks))))
          (diversity_loop (\<lambda>_. 0) [] (sort_by_score (dedup_loop {} [] chunks)))"
    by (rule prefix_imp_subseq [OF take_is_prefix])
  then have "subseq (take 6 (diversity_loop (\<lambda>_. 0) [] (sort_by_score (dedup_loop {} [] chunks))))
          (sort_by_score (dedup_loop {} [] chunks))"
    using diversity_loop_subseq [of "\<lambda>_. 0" "sort_by_score (dedup_loop {} [] chunks)"]
    by (rule subseq_order.order_trans)
  then show ?thesis using False by (simp add: merge_chunks_def)
qed

lemma merge_chunks_prefix:
  "prefix (merge_chunks chunks) (diversity_loop (\<lambda>_. 0) [] (sort_by_score (dedup_loop {} [] chunks)))"
  by (cases "chunks = []") (simp_all add: merge_chunks_def take_is_prefix)

lemma merge_chunks_length: "length (merge_chunks chunks) \<le> 6"
  by (simp add: merge_chunks_def)

lemma merge_chunks_distinct_ids: "distinct (map get_chunk_id (merge_chunks chunks))"
proof -
  have "distinct (map get_chunk_id (sort_by_score (dedup_loop {} [] chunks)))"
    using dedup_loop_distinct by (rule sort_by_score_distinct_ids)
  with merge_chunks_subseq show ?thesis by (rule subseq_distinct_map)
qed

lemma merge_chunks_url_bound:
  "length (filter (\<lambda>c. get_url c = u) (merge_chunks chunks)) \<le> 3"
proof -
  let ?walk = "diversity_loop (\<lambda>_. 0) [] (sort_by_score (dedup_loop {} [] chunks))"
  have "subseq (merge_chunks chunks) ?walk"
    using merge_chunks_prefix by (rule prefix_imp_subseq)
  then have "length (filter (\<lambda>c. get_url c = u) (merge_chunks chunks))
               \<le> length (filter (\<lambda>c. get_url c = u) ?walk)"
    by (rule subseq_filter_length)
  also have "\<dots> \<le> 3"
    using diversity_loop_bound [of "\<lambda>_. 0" u "sort_by_score (dedup_loop {} [] chunks)"] by simp
  finally show ?thesis .
qed

lemma merge_chunks_ids_nonempty:
  "c \<in> set (merge_chunks chunks) \<Longrightarrow> get_chunk_id c \<noteq> []"
proof -
  assume "c \<in> set (merge_chunks chunks)"
  with merge_chunks_subseq have "c \<in> set (sort_by_score (dedup_loop {} [] chunks))"
    by (rule subseq_in_set)
  then have "c \<in> set (dedup_loop {} [] chunks)" by (simp add: sort_by_score_def)
  then show ?thesis using dedup_loop_ids [of c "{}" chunks] by simp
qed

lemma merge_chunks_sorted: "sorted (map (\<lambda>x. - get_score x) (merge_chunks chunks))"
  using merge_chunks_subseq sort_by_score_sorted by (rule subseq_sorted_map)

subsection \<open>The merged result\<close>

lemma filter_length_mono:
  assumes "\<And>x. P x \<Longrightarrow> Q x"
  shows "length (filter P xs) \<le> length (filter Q xs)"
proof -
  have "filter P xs = filter P (filter Q xs)"
    using assms by (induction xs) auto
  then have "length (filter P xs) = length (filter P (filter Q xs))" by simp
  also have "\<dots> \<le> length (filter Q xs)" by (rule length_filter_le)
  finally show ?thesis .
qed

lemma merge_chunks_distinct_field: "distinct (map chunk_id (merge_chunks chunks))"
proof -
  have "map get_chunk_id (merge_chunks chunks)
          = map (\<lambda>v. case v of None \<Rightarrow> [] | Some s \<Rightarrow> s) (map chunk_id (merge_chunks chunks))"
    by (simp add: get_chunk_id_def)
  with merge_chunks_distinct_ids [of chunks]
  have "distinct (map (\<lambda>v. case v of None \<Rightarrow> [] | Some s \<Rightarrow> s) (map chunk_id (merge_chunks chunks)))"
    by simp
  then show ?thesis by (simp only: distinct_map [of _ "map chunk_id (merge_chunks chunks)"])
qed

lemma merge_chunks_url_field_bound:
  "length (filter (\<lambda>c. url c = v) (merge_chunks chunks)) \<le> 3"
proof -
  define u where "u = (case v of None \<Rightarrow> ''unknown'' | Some w \<Rightarrow> w)"
  have "length (filter (\<lambda>c. url c = v) (merge_chunks chunks))
          \<le> length (filter (\<lambda>c. get_url c = u) (merge_chunks chunks))"
    by (rule filter_length_mono) (simp add: get_url_def u_def)
  also have "\<dots> \<le> 3" by (rule merge_chunks_url_bound)
  finally show ?thesis .
qed

text \<open>
  Claim C1. For every input list of chunks, the list returned by \<^verbatim>\<open>_merge_chunks\<close> has at
  most 6 chunks, no two of its chunks have the same \<open>chunk_id\<close>, and no \<open>url\<close> value
  occurs in it more than 3 times. The bound holds for the \<open>url\<close> field as stored (an absent
  url included) and for the value \<^verbatim>\<open>chunk.get("url", "unknown")\<close> the code counts.
\<close>

theorem merge_chunks_invariants:
  "length (merge_chunks chunks) \<le> 6
   \<and> distinct (map chunk_id (merge_chunks chunks))
   \<and> (\<forall>v. length (filter (\<lambda>c. url c = v) (merge_chunks chunks)) \<le> 3)
   \<and> (\<forall>u. length (filter (\<lambda>c. get_url c = u) (merge_chunks chunks)) \<le> 3)"
  using merge_chunks_length [of chunks] merge_chunks_distinct_field [of chunks]
        merge_chunks_url_field_bound [of _ chunks] merge_chunks_url_bound [of _ chunks]
  by simp

text \<open>
  Claim C9. \<^verbatim>\<open>_merge_chunks\<close> is idempotent on its own outputs: applied to a list it
  returned, it returns that list unchanged.
\<close>

theorem merge_chunks_idempotent: "merge_chunks (merge_chunks chunks) = merge_chunks chunks"
proof (cases "merge_chunks chunks = []")
  case True
  then show ?thesis by (simp add: merge_chunks_def)
next
  case False
  let ?out = "merge_chunks chunks"
  have d: "dedup_loop {} [] ?out = ?out"
    using merge_chunks_distinct_ids merge_chunks_ids_nonempty by (intro dedup_loop_id) simp_all
  have s: "sort_by_score ?out = ?out"
    unfolding sort_by_score_def using merge_chunks_sorted by (rule sort_key_id_if_sorted)
  have w: "diversity_loop (\<lambda>_. 0) [] ?out = ?out"
    using merge_chunks_url_bound by (intro diversity_loop_id) simp
  have t: "take 6 ?out = ?out"
    using merge_chunks_length by simp
  show ?thesis
    using False by (subst merge_chunks_def) (simp add: d s w t)
qed

lemma get_chunk_id_nonempty:
  "get_chunk_id c \<noteq> [] \<longleftrightarrow> (\<exists>s. chunk_id c = Some s \<and> s \<noteq> [])"
  by (cases "chunk_id c") (simp_all add: get_chunk_id_def)

text \<open>
  Claim C10. Every chunk in the merged result has a non-empty \<open>chunk_id\<close>; equivalently, a
  chunk whose \<open>chunk_id\<close> is absent or the empty string is never in the output of
  \<^verbatim>\<open>_merge_chunks\<close>, whatever its score.
\<close>

theorem merge_chunks_excludes_missing_id:
  "(\<forall>c \<in> set (merge_chunks chunks). \<exists>s. chunk_id c = Some s \<and> s \<noteq> [])
   \<and> (\<forall>c::chunk. chunk_id c = None \<or> chunk_id c = Some [] \<longrightarrow> c \<notin> set (merge_chunks chunks))"
proof (intro conjI ballI allI impI)
  fix c assume "c \<in> set (merge_chunks chunks)"
  then have "get_chunk_id c \<noteq> []" by (rule merge_chunks_ids_nonempty)
  then show "\<exists>s. chunk_id c = Some s \<and> s \<noteq> []" by (simp only: get_chunk_id_nonempty)
next
  fix c :: chunk assume a: "chunk_id c = None \<or> chunk_id c = Some []"
  show "c \<notin> set (merge_chunks chunks)"
  proof
    assume "c \<in> set (merge_chunks chunks)"
    then have "get_chunk_id c \<noteq> []" by (rule merge_chunks_ids_nonempty)
    with a show False by (auto simp: get_chunk_id_def)
  qed
qed

text \<open>A run of the merge: the chunk without identifier is dropped and the other two are
  ordered by their \<open>score\<close> field, highest first.\<close>

lemma merge_example:
  "merge_chunks [chunk_no_id, mk_chunk ''a'' ''u'' (1/10) (9/10), mk_chunk ''b'' ''u'' (9/10) (1/10)]
     = [mk_chunk ''b'' ''u'' (9/10) (1/10), mk_chunk ''a'' ''u'' (1/10) (9/10)]"
  by (simp add: merge_chunks_def sort_by_score_def get_chunk_id_def get_url_def get_score_def
        chunk_no_id_def mk_chunk_def Let_def)

theorem merge_chunks_excludes_missing_id_witness:
  "chunk_id chunk_no_id = None
   \<and> chunk_no_id \<in> set [chunk_no_id, mk_chunk ''a'' ''u'' (1/10) (9/10), mk_chunk ''b'' ''u'' (9/10) (1/10)]
   \<and> chunk_no_id \<notin> set (merge_chunks [chunk_no_id, mk_chunk ''a'' ''u'' (1/10) (9/10), mk_chunk ''b'' ''u'' (9/10) (1/10)])
   \<and> mk_chunk ''b'' ''u'' (9/10) (1/10) \<in> set (merge_chunks [chunk_no_id, mk_chunk ''a'' ''u'' (1/10) (9/10), mk_chunk ''b'' ''u'' (9/10) (1/10)])
   \<and> (\<exists>s. chunk_id (mk_chunk ''b'' ''u'' (9/10) (1/10)) = Some s \<and> s \<noteq> [])"
proof -
  let ?xs = "[chunk_no_id, mk_chunk ''a'' ''u'' (1/10) (9/10), mk_chunk ''b'' ''u'' (9/10) (1/10)]"
  have h: "chunk_id chunk_no_id = None" by (simp add: chunk_no_id_def)
  have m: "mk_chunk ''b'' ''u'' (9/10) (1/10) \<in> set (merge_chunks ?xs)"
    by (simp only: merge_example list.set insertI1)
  from merge_chunks_excludes_missing_id [of ?xs] h m
  have "chunk_no_id \<notin> set (merge_chunks ?xs)"
    and "\<exists>s. chunk_id (mk_chunk ''b'' ''u'' (9/10) (1/10)) = Some s \<and> s \<noteq> []"
    by blast+
  with h m show ?thesis by simp
qed

subsection \<open>Order of the merged result\<close>

lemma sort_by_score_stable:
  "filter (\<lambda>c. get_score c = k) (sort_by_score cs) = filter (\<lambda>c. get_score c = k) cs"
proof -
  have "filter (\<lambda>c. - get_score c = - k) (sort_key (\<lambda>x. - get_score x) cs)
          = filter (\<lambda>c. - get_score c = - k) cs"
    by (rule sort_key_stable)
  then show ?thesis by (simp add: sort_by_score_def)
qed

lemma descending_iff:
  "sorted (map (\<lambda>x. - get_score x) cs) \<longleftrightarrow> sorted_wrt (\<lambda>a b. get_score a \<ge> get_score b) cs"
  by (simp add: sorted_map)

lemma merge_chunks_stable:
  "subseq (filter (\<lambda>c. get_score c = k) (merge_chunks chunks))
          (filter (\<lambda>c. get_score c = k) chunks)"
proof -
  let ?P = "\<lambda>c. get_score c = k"
  have "subseq (filter ?P (merge_chunks chunks)) (filter ?P (sort_by_score (dedup_loop {} [] chunks)))"
    using merge_chunks_subseq by (rule subseq_filter)
  then have a: "subseq (filter ?P (merge_chunks chunks)) (filter ?P (dedup_loop {} [] chunks))"
    by (simp only: sort_by_score_stable)
  have b: "subseq (filter ?P (dedup_loop {} [] chunks)) (filter ?P chunks)"
    using dedup_loop_subseq by (rule subseq_filter)
  from a b show ?thesis by (rule subseq_order.order_trans)
qed

lemma merge_chunks_pipeline:
  "merge_chunks chunks
     = take 6 (diversity_loop (\<lambda>_. 0) [] (sort_by_score (dedup_loop {} [] chunks)))"
  by (cases "chunks = []") (simp_all add: merge_chunks_def sort_by_score_def)

lemma dedup_loop_map:
  assumes "\<And>c. get_chunk_id (g c) = get_chunk_id c"
  shows "dedup_loop seen [] (map g cs) = map g (dedup_loop seen [] cs)"
proof (induction cs arbitrary: seen)
  case Nil
  show ?case by simp
next
  case (Cons c cs)
  show ?case
    unfolding list.map dedup_loop_Cons assms by (simp add: Cons.IH)
qed

lemma insort_by_score_map:
  assumes "\<And>c. get_score (g c) = get_score c"
  shows "insort_key (\<lambda>x. - get_score x) (g x) (map g xs)
           = map g (insort_key (\<lambda>x. - get_score x) x xs)"
  by (induction xs) (simp_all add: assms)

lemma sort_by_score_map:
  assumes "\<And>c. get_score (g c) = get_score c"
  shows "sort_by_score (map g cs) = map g (sort_by_score cs)"
proof (induction cs)
  case Nil
  show ?case by (simp add: sort_by_score_def)
next
  case (Cons c cs)
  then have "sort_key (\<lambda>x. - get_score x) (map g cs) = map g (sort_key (\<lambda>x. - get_score x) cs)"
    by (simp add: sort_by_score_def)
  then show ?case
    by (simp add: sort_by_score_def insort_by_score_map [OF assms])
qed

lemma diversity_loop_map:
  assumes "\<And>c. get_url (g c) = get_url c"
  shows "diversity_loop cnt [] (map g cs) = map g (diversity_loop cnt [] cs)"
proof (induction cs arbitrary: cnt)
  case Nil
  show ?case by simp
next
  case (Cons c cs)
  define cnt' where "cnt' = cnt(get_url c := cnt (get_url c) + 1)"
  have a: "diversity_loop cnt' [] (map g cs) = map g (diversity_loop cnt' [] cs)"
    by (rule Cons.IH)
  have b: "diversity_loop cnt [] (map g cs) = map g (diversity_loop cnt [] cs)"
    by (rule Cons.IH)
  show ?case
    unfolding list.map diversity_loop_Cons assms cnt'_def [symmetric]
    by (simp only: a b list.map if_distrib [of "map g"])
qed

lemma merge_chunks_map:
  assumes "\<And>c. get_chunk_id (g c) = get_chunk_id c"
    and "\<And>c. get_url (g c) = get_url c"
    and "\<And>c. get_score (g c) = get_score c"
  shows "merge_chunks (map g chunks) = map g (merge_chunks chunks)"
  unfolding merge_chunks_pipeline
  by (simp only: dedup_loop_map [of g, OF assms(1)] sort_by_score_map [of g, OF assms(3)]
        diversity_loop_map [of g, OF assms(2)] take_map)

lemma merge_chunks_rerank_score:
  "merge_chunks (map (\<lambda>c. c\<lparr>rerank_score := f c\<rparr>) chunks)
     = map (\<lambda>c. c\<lparr>rerank_score := f c\<rparr>) (merge_chunks chunks)"
  by (rule merge_chunks_map) (simp_all add: get_chunk_id_def get_url_def get_score_def)

lemma diversity_loop_dropped:
  assumes "sorted_wrt (\<lambda>a b. get_score a \<ge> get_score b) cs"
    and "x \<in> set cs" and "x \<notin> set (diversity_loop cnt [] cs)"
    and "cnt (get_url x) \<le> 3"
  shows "cnt (get_url x)
           + length (filter (\<lambda>c. get_url c = get_url x) (diversity_loop cnt [] cs)) = 3
         \<and> (\<forall>y \<in> set (diversity_loop cnt [] cs).
               get_url y = get_url x \<longrightarrow> get_score y \<ge> get_score x)"
  using assms
proof (induction cs arbitrary: cnt)
  case Nil
  then show ?case by simp
next
  case (Cons c cs)
  let ?u = "get_url x"
  from Cons.prems(1) have tail: "sorted_wrt (\<lambda>a b. get_score a \<ge> get_score b) cs"
    and head: "\<forall>y \<in> set cs. get_score c \<ge> get_score y" by simp_all
  show ?case
  proof (cases "cnt (get_url c) < 3")
    case True
    define cnt' where "cnt' = cnt(get_url c := cnt (get_url c) + 1)"
    have step: "diversity_loop cnt [] (c # cs) = c # diversity_loop cnt' [] cs"
      unfolding diversity_loop_Cons cnt'_def using True by simp
    from Cons.prems(3) have xc: "x \<noteq> c" and xw: "x \<notin> set (diversity_loop cnt' [] cs)"
      unfolding step by simp_all
    from Cons.prems(2) xc have xs: "x \<in> set cs" by simp
    have cu: "cnt' ?u = (if ?u = get_url c then cnt ?u + 1 else cnt ?u)"
      by (simp add: cnt'_def)
    have le: "cnt' ?u \<le> 3" using cu True Cons.prems(4) by (cases "?u = get_url c") simp_all
    from Cons.IH [OF tail xs xw le]
    have ih1: "cnt' ?u + length (filter (\<lambda>c. get_url c = ?u) (diversity_loop cnt' [] cs)) = 3"
      and ih2: "\<forall>y \<in> set (diversity_loop cnt' [] cs). get_url y = ?u \<longrightarrow> get_score y \<ge> get_score x"
      by simp_all
    have "cnt ?u + length (filter (\<lambda>c. get_url c = ?u) (c # diversity_loop cnt' [] cs)) = 3"
      using ih1 cu by (cases "?u = get_url c") auto
    moreover have "\<forall>y \<in> set (c # diversity_loop cnt' [] cs).
                     get_url y = ?u \<longrightarrow> get_score y \<ge> get_score x"
      using ih2 head xs by simp
    ultimately show ?thesis unfolding step by simp
  next
    case False
    have step: "diversity_loop cnt [] (c # cs) = diversity_loop cnt [] cs"
      unfolding diversity_loop_Cons using False by simp
    show ?thesis
    proof (cases "x \<in> set cs")
      case True
      from Cons.prems(3) have "x \<notin> set (diversity_loop cnt [] cs)" unfolding step .
      from Cons.IH [OF tail True this Cons.prems(4)] show ?thesis unfolding step .
    next
      case notin: False
      with Cons.prems(2) have "x = c" by simp
      with False Cons.prems(4) have full: "cnt ?u = 3" by simp
      from diversity_loop_bound [of cnt ?u cs] full
      have none: "length (filter (\<lambda>c. get_url c = ?u) (diversity_loop cnt [] cs)) = 0" by simp
      then have "\<forall>y \<in> set (diversity_loop cnt [] cs). get_url y \<noteq> ?u"
        by (simp add: filter_empty_conv)
      with full none show ?thesis unfolding step by simp
    qed
  qed
qed

lemma merge_chunks_dropped:
  assumes "x \<in> set (dedup_loop {} [] chunks)" and "x \<notin> set (merge_chunks chunks)"
  shows "length (merge_chunks chunks) = 6
         \<or> (length (filter (\<lambda>c. get_url c = get_url x) (merge_chunks chunks)) = 3
            \<and> (\<forall>y \<in> set (merge_chunks chunks).
                  get_url y = get_url x \<longrightarrow> get_score y \<ge> get_score x))"
proof -
  let ?sp = "sort_by_score (dedup_loop {} [] chunks)"
  let ?walk = "diversity_loop (\<lambda>_. 0) [] ?sp"
  show ?thesis
  proof (cases "length ?walk \<ge> 6")
    case True
    then have "length (merge_chunks chunks) = 6" unfolding merge_chunks_pipeline by simp
    then show ?thesis by simp
  next
    case False
    then have eq: "merge_chunks chunks = ?walk" unfolding merge_chunks_pipeline by simp
    have sorted: "sorted_wrt (\<lambda>a b. get_score a \<ge> get_score b) ?sp"
      using sort_by_score_sorted [of "dedup_loop {} [] chunks"] by (simp only: descending_iff)
    have mem: "x \<in> set ?sp" using assms(1) by (simp add: sort_by_score_def)
    have out: "x \<notin> set ?walk" using assms(2) unfolding eq .
    have "(\<lambda>_. 0::nat) (get_url x) \<le> 3" by simp
    from diversity_loop_dropped [OF sorted mem out this]
    show ?thesis unfolding eq by simp
  qed
qed


text \<open>
  Claim C5, as amended. \<^verbatim>\<open>_merge_chunks\<close> is the diversity walk, cut at 6, over the
  deduplicated pool sorted by the chunk's \<open>score\<close> field (0 when absent), highest first: the
  sort comes before the walk and is stable, chunks of equal score keeping their order. So
  the merged output is ordered by that field, highest first, and its chunks of equal score
  are in the order in which they first appear in the input. The walk admits from the top: a
  chunk of the pool is left out only when the output already has 6 chunks, or holds 3
  chunks of the same url whose score is at least its own. The \<open>rerank_score\<close> field, which
  the grader writes, is not read: changing it on the input chunks changes nothing in the
  output but that field.
\<close>

theorem merge_chunks_ordered_by_score_field:
  "merge_chunks chunks
     = take 6 (diversity_loop (\<lambda>_. 0) [] (sort_by_score (dedup_loop {} [] chunks)))
   \<and> sorted_wrt (\<lambda>a b. get_score a \<ge> get_score b) (sort_by_score (dedup_loop {} [] chunks))
   \<and> (\<forall>k. filter (\<lambda>c. get_score c = k) (sort_by_score (dedup_loop {} [] chunks))
            = filter (\<lambda>c. get_score c = k) (dedup_loop {} [] chunks))
   \<and> sorted_wrt (\<lambda>a b. get_score a \<ge> get_score b) (merge_chunks chunks)
   \<and> (\<forall>k. subseq (filter (\<lambda>c. get_score c = k) (merge_chunks chunks))
                   (filter (\<lambda>c. get_score c = k) chunks))
   \<and> (\<forall>x \<in> set (dedup_loop {} [] chunks). x \<notin> set (merge_chunks chunks) \<longrightarrow>
         length (merge_chunks chunks) = 6
         \<or> (length (filter (\<lambda>c. get_url c = get_url x) (merge_chunks chunks)) = 3
            \<and> (\<forall>y \<in> set (merge_chunks chunks).
                  get_url y = get_url x \<longrightarrow> get_score y \<ge> get_score x)))
   \<and> (\<forall>f. merge_chunks (map (\<lambda>c. c\<lparr>rerank_score := f c\<rparr>) chunks)
            = map (\<lambda>c. c\<lparr>rerank_score := f c\<rparr>) (merge_chunks chunks))"
proof (intro conjI allI ballI impI)
  show "merge_chunks chunks
     = take 6 (diversity_loop (\<lambda>_. 0) [] (sort_by_score (dedup_loop {} [] chunks)))"
    by (rule merge_chunks_pipeline)
  show "sorted_wrt (\<lambda>a b. get_score a \<ge> get_score b) (sort_by_score (dedup_loop {} [] chunks))"
    using sort_by_score_sorted [of "dedup_loop {} [] chunks"] by (simp only: descending_iff)
  show "sorted_wrt (\<lambda>a b. get_score a \<ge> get_score b) (merge_chunks chunks)"
    using merge_chunks_sorted [of chunks] by (simp only: descending_iff)
next
  fix k
  show "filter (\<lambda>c. get_score c = k) (sort_by_score (dedup_loop {} [] chunks))
            = filter (\<lambda>c. get_score c = k) (dedup_loop {} [] chunks)"
    by (rule sort_by_score_stable)
next
  fix k
  show "subseq (filter (\<lambda>c. get_score c = k) (merge_chunks chunks))
                   (filter (\<lambda>c. get_score c = k) chunks)"
    by (rule merge_chunks_stable)
next
  fix x
  assume "x \<in> set (dedup_loop {} [] chunks)" and "x \<notin> set (merge_chunks chunks)"
  then show "length (merge_chunks chunks) = 6
         \<or> (length (filter (\<lambda>c. get_url c = get_url x) (merge_chunks chunks)) = 3
            \<and> (\<forall>y \<in> set (merge_chunks chunks).
                  get_url y = get_url x \<longrightarrow> get_score y \<ge> get_score x))"
    by (rule merge_chunks_dropped)
next
  fix f
  show "merge_chunks (map (\<lambda>c. c\<lparr>rerank_score := f c\<rparr>) chunks)
            = map (\<lambda>c. c\<lparr>rerank_score := f c\<rparr>) (merge_chunks chunks)"
    by (rule merge_chunks_rerank_score)
qed

text \<open>A run on four chunks of one url given in ascending order of score: the three
  highest are kept, highest first, and the lowest is left out.\<close>

lemma four_chunks_merge:
  "merge_chunks four_chunks
     = [mk_chunk ''c4'' ''u'' (4/10) 0, mk_chunk ''c3'' ''u'' (3/10) 0, mk_chunk ''c2'' ''u'' (2/10) 0]"
  by (simp add: four_chunks_def merge_chunks_def sort_by_score_def get_chunk_id_def get_url_def
        get_score_def mk_chunk_def Let_def)

lemma four_chunks_dedup: "mk_chunk ''c1'' ''u'' (1/10) 0 \<in> set (dedup_loop {} [] four_chunks)"
  by (simp add: four_chunks_def get_chunk_id_def mk_chunk_def Let_def)

theorem merge_chunks_ordered_by_score_field_witness:
  "mk_chunk ''c1'' ''u'' (1/10) 0 \<in> set (dedup_loop {} [] four_chunks)
   \<and> mk_chunk ''c1'' ''u'' (1/10) 0 \<notin> set (merge_chunks four_chunks)
   \<and> length (merge_chunks four_chunks) \<noteq> 6
   \<and> length (filter (\<lambda>c. get_url c = get_url (mk_chunk ''c1'' ''u'' (1/10) 0))
               (merge_chunks four_chunks)) = 3
   \<and> mk_chunk ''c2'' ''u'' (2/10) 0 \<in> set (merge_chunks four_chunks)
   \<and> get_url (mk_chunk ''c2'' ''u'' (2/10) 0) = get_url (mk_chunk ''c1'' ''u'' (1/10) 0)
   \<and> get_score (mk_chunk ''c2'' ''u'' (2/10) 0) \<ge> get_score (mk_chunk ''c1'' ''u'' (1/10) 0)"
proof -
  let ?x = "mk_chunk ''c1'' ''u'' (1/10) 0"
  let ?y = "mk_chunk ''c2'' ''u'' (2/10) 0"
  have h1: "?x \<in> set (dedup_loop {} [] four_chunks)" by (rule four_chunks_dedup)
  have h2: "?x \<notin> set (merge_chunks four_chunks)"
    unfolding four_chunks_merge by (simp add: mk_chunk_def)
  have h3: "length (merge_chunks four_chunks) \<noteq> 6"
    unfolding four_chunks_merge by simp
  have h4: "?y \<in> set (merge_chunks four_chunks)"
    unfolding four_chunks_merge by simp
  have h5: "get_url ?y = get_url ?x" by (simp add: get_url_def mk_chunk_def)
  from merge_chunks_ordered_by_score_field [of four_chunks] h1 h2
  have "length (merge_chunks four_chunks) = 6
         \<or> (length (filter (\<lambda>c. get_url c = get_url ?x) (merge_chunks four_chunks)) = 3
            \<and> (\<forall>y \<in> set (merge_chunks four_chunks).
                  get_url y = get_url ?x \<longrightarrow> get_score y \<ge> get_score ?x))"
    by blast
  with h3 have c: "length (filter (\<lambda>c. get_url c = get_url ?x) (merge_chunks four_chunks)) = 3"
    and d: "\<forall>y \<in> set (merge_chunks four_chunks).
                  get_url y = get_url ?x \<longrightarrow> get_score y \<ge> get_score ?x"
    by blast+
  from d h4 h5 have e: "get_score ?y \<ge> get_score ?x" by blast
  from h1 h2 h3 c h4 h5 e show ?thesis by (intro conjI)
qed

text \<open>
  Claim C5 as stated fails: the grader (\<^verbatim>\<open>grade_documents\<close>) attaches its score under the
  key \<open>rerank_score\<close>, while the merge sorts on the key \<open>score\<close>. With chunk \<open>a\<close> of
  score 0.1 and grader score 0.9, and chunk \<open>b\<close> of score 0.9 and grader score 0.1, the
  merged output is \<open>[b, a]\<close>: ascending in the score the grader attached.
\<close>

theorem merge_chunks_ignores_rerank_score:
  "merge_chunks [mk_chunk ''a'' ''u'' (1/10) (9/10), mk_chunk ''b'' ''u'' (9/10) (1/10)]
     = [mk_chunk ''b'' ''u'' (9/10) (1/10), mk_chunk ''a'' ''u'' (1/10) (9/10)]
   \<and> map rerank_score
        (merge_chunks [mk_chunk ''a'' ''u'' (1/10) (9/10), mk_chunk ''b'' ''u'' (9/10) (1/10)])
     = [Some (1/10), Some (9/10)]"
  by (simp add: merge_chunks_def sort_by_score_def get_chunk_id_def get_url_def get_score_def
        mk_chunk_def Let_def)

section \<open>Properties of the fan-out\<close>

lemma retrieve_loop_fail:
  "find (\<lambda>q. isl (retrieve q 4 k)) qs = Some q0 \<Longrightarrow>
   retrieve_loop retrieve k pq acc qs = Inl (projl (retrieve q0 4 k))"
proof (induction qs arbitrary: pq acc)
  case Nil
  then show ?case by simp
next
  case (Cons q qs)
  show ?case
  proof (cases "retrieve q 4 k")
    case (Inl e)
    with Cons.prems show ?thesis by simp
  next
    case (Inr cs)
    with Cons.prems have "find (\<lambda>q. isl (retrieve q 4 k)) qs = Some q0" by simp
    then have "retrieve_loop retrieve k (pq(q \<mapsto> tag_chunks q cs)) (acc @ tag_chunks q cs) qs
                 = Inl (projl (retrieve q0 4 k))"
      by (rule Cons.IH)
    with Inr show ?thesis by (simp add: Let_def)
  qed
qed

lemma retrieve_loop_ok:
  "find (\<lambda>q. isl (retrieve q 4 k)) qs = None \<Longrightarrow>
   \<exists>pq'. retrieve_loop retrieve k pq acc qs
            = Inr (pq', acc @ concat (map (\<lambda>q. tag_chunks q (projr (retrieve q 4 k))) qs))
         \<and> (\<forall>q \<in> set qs. pq' q = Some (tag_chunks q (projr (retrieve q 4 k))))
         \<and> (\<forall>q. q \<notin> set qs \<longrightarrow> pq' q = pq q)"
proof (induction qs arbitrary: pq acc)
  case Nil
  then show ?case by simp
next
  case (Cons q qs)
  from Cons.prems obtain cs where cs: "retrieve q 4 k = Inr cs"
    by (cases "retrieve q 4 k") (simp_all split: if_splits)
  from Cons.prems cs have rest: "find (\<lambda>q. isl (retrieve q 4 k)) qs = None" by simp
  from Cons.IH [OF rest, of "pq(q \<mapsto> tag_chunks q cs)" "acc @ tag_chunks q cs"]
  obtain pq' where
    run: "retrieve_loop retrieve k (pq(q \<mapsto> tag_chunks q cs)) (acc @ tag_chunks q cs) qs
            = Inr (pq', (acc @ tag_chunks q cs) @ concat (map (\<lambda>q. tag_chunks q (projr (retrieve q 4 k))) qs))"
    and inside: "\<forall>q' \<in> set qs. pq' q' = Some (tag_chunks q' (projr (retrieve q' 4 k)))"
    and outside: "\<forall>q'. q' \<notin> set qs \<longrightarrow> pq' q' = (pq(q \<mapsto> tag_chunks q cs)) q'"
    by blast
  have "retrieve_loop retrieve k pq acc (q # qs)
          = Inr (pq', acc @ concat (map (\<lambda>q. tag_chunks q (projr (retrieve q 4 k))) (q # qs)))"
    using run cs by (simp add: Let_def)
  moreover have "\<forall>q' \<in> set (q # qs). pq' q' = Some (tag_chunks q' (projr (retrieve q' 4 k)))"
  proof
    fix q' assume "q' \<in> set (q # qs)"
    show "pq' q' = Some (tag_chunks q' (projr (retrieve q' 4 k)))"
    proof (cases "q' \<in> set qs")
      case True
      with inside show ?thesis by simp
    next
      case False
      with \<open>q' \<in> set (q # qs)\<close> have "q' = q" by simp
      with False outside cs show ?thesis by simp
    qed
  qed
  moreover have "\<forall>q'. q' \<notin> set (q # qs) \<longrightarrow> pq' q' = pq q'"
    using outside by simp
  ultimately show ?case by blast
qed

text \<open>
  Claim C2, as amended. \<^verbatim>\<open>retrieve_multi\<close> has no failure handling: if the retrieval call of
  some sub-query fails, the stage fails as a whole with the error of the first failing
  sub-query, and neither a zero-chunk record nor a result is produced. If no call fails, it
  returns the merge of all retrieved chunks, each tagged with its sub-query, and records
  the tagged chunks of every sub-query.
\<close>

theorem retrieve_multi_failure_propagates:
  "(find (\<lambda>q. isl (retrieve q 4 k)) sub_queries = Some q0 \<longrightarrow>
      (\<exists>e. retrieve q0 4 k = Inl e \<and> retrieve_multi retrieve sub_queries k = Inl e))
   \<and> (find (\<lambda>q. isl (retrieve q 4 k)) sub_queries = None \<longrightarrow>
      (\<exists>r. retrieve_multi retrieve sub_queries k = Inr r
          \<and> merged_chunks r
              = merge_chunks (concat (map (\<lambda>q. tag_chunks q (projr (retrieve q 4 k))) sub_queries))
          \<and> (\<forall>q \<in> set sub_queries.
                per_query_results r q = Some (tag_chunks q (projr (retrieve q 4 k))))))"
proof (intro conjI impI)
  assume f: "find (\<lambda>q. isl (retrieve q 4 k)) sub_queries = Some q0"
  then have "isl (retrieve q0 4 k)" by (auto simp: find_Some_iff)
  then obtain e where e: "retrieve q0 4 k = Inl e" by (cases "retrieve q0 4 k") simp_all
  from retrieve_loop_fail [where retrieve=retrieve and k=k and pq=Map.empty and acc="[]", OF f] e
  have "retrieve_multi retrieve sub_queries k = Inl e"
    by (simp add: retrieve_multi_def)
  with e show "\<exists>e. retrieve q0 4 k = Inl e \<and> retrieve_multi retrieve sub_queries k = Inl e"
    by blast
next
  assume f: "find (\<lambda>q. isl (retrieve q 4 k)) sub_queries = None"
  from retrieve_loop_ok [where retrieve=retrieve and k=k and pq=Map.empty and acc="[]", OF f]
  obtain pq' where
    run: "retrieve_loop retrieve k Map.empty [] sub_queries
            = Inr (pq', concat (map (\<lambda>q. tag_chunks q (projr (retrieve q 4 k))) sub_queries))"
    and inside: "\<forall>q \<in> set sub_queries. pq' q = Some (tag_chunks q (projr (retrieve q 4 k)))"
    by auto
  show "\<exists>r. retrieve_multi retrieve sub_queries k = Inr r
          \<and> merged_chunks r
              = merge_chunks (concat (map (\<lambda>q. tag_chunks q (projr (retrieve q 4 k))) sub_queries))
          \<and> (\<forall>q \<in> set sub_queries.
                per_query_results r q = Some (tag_chunks q (projr (retrieve q 4 k))))"
    using run inside by (simp add: retrieve_multi_def Let_def)
qed

text \<open>
  Claim C2 as stated fails: with the sub-queries \<open>a\<close> and \<open>b\<close>, where the retrieval of
  \<open>a\<close> raises and that of \<open>b\<close> would return one chunk, \<^verbatim>\<open>retrieve_multi\<close> does not go on
  to \<open>b\<close> and returns no result: the exception leaves the function.
\<close>

theorem retrieve_multi_one_failure_fails_all:
  "retrieve_multi failing_retriever [''a'', ''b''] 3 = Inl (RetrievalError ''timeout'')
   \<and> failing_retriever ''b'' 4 3 = Inr [mk_chunk ''c1'' ''u'' (1/2) (1/2)]"
  by (simp add: retrieve_multi_def failing_retriever_def)

theorem retrieve_multi_failure_propagates_witness:
  "find (\<lambda>q. isl (failing_retriever q 4 3)) [''b'', ''a''] = Some ''a''
   \<and> retrieve_multi failing_retriever [''b'', ''a''] 3 = Inl (RetrievalError ''timeout'')
   \<and> find (\<lambda>q. isl (ok_retriever q 4 3)) [''b'', ''a''] = None
   \<and> (\<exists>r. retrieve_multi ok_retriever [''b'', ''a''] 3 = Inr r
          \<and> per_query_results r ''a'' = Some (tag_chunks ''a'' [mk_chunk ''a'' ''u'' (1/2) (1/2)]))"
proof -
  have f1: "find (\<lambda>q. isl (failing_retriever q 4 3)) [''b'', ''a''] = Some ''a''"
    by (simp add: failing_retriever_def)
  have f2: "find (\<lambda>q. isl (ok_retriever q 4 3)) [''b'', ''a''] = None"
    by (simp add: ok_retriever_def)
  have e: "failing_retriever ''a'' 4 3 = Inl (RetrievalError ''timeout'')"
    by (simp add: failing_retriever_def)
  from retrieve_multi_failure_propagates [of failing_retriever 3 "[''b'', ''a'']" "''a''"] f1 e
  have r1: "retrieve_multi failing_retriever [''b'', ''a''] 3 = Inl (RetrievalError ''timeout'')"
    by simp
  from retrieve_multi_failure_propagates [of ok_retriever 3 "[''b'', ''a'']"] f2
  obtain r where "retrieve_multi ok_retriever [''b'', ''a''] 3 = Inr r"
    and "\<forall>q \<in> set [''b'', ''a''].
           per_query_results r q = Some (tag_chunks q (projr (ok_retriever q 4 3)))"
    by blast
  then have "retrieve_multi ok_retriever [''b'', ''a''] 3 = Inr r
          \<and> per_query_results r ''a'' = Some (tag_chunks ''a'' [mk_chunk ''a'' ''u'' (1/2) (1/2)])"
    by (simp add: ok_retriever_def)
  then have r2: "\<exists>r. retrieve_multi ok_retriever [''b'', ''a''] 3 = Inr r
          \<and> per_query_results r ''a'' = Some (tag_chunks ''a'' [mk_chunk ''a'' ''u'' (1/2) (1/2)])"
    by blast
  from f1 r1 f2 r2 show ?thesis by simp
qed

section \<open>Properties of the action decision\<close>




section \<open>Properties of the floating-point rounding\<close>

lemma dtype_wf: "3 \<le> precision dt" "emin dt \<le> - 3" "3 \<le> emax dt"
  by (cases dt; simp)+

lemma round_half_even_bounds:
  "\<lfloor>t\<rfloor> \<le> round_half_even t \<and> round_half_even t \<le> \<lfloor>t\<rfloor> + 1"
  by (simp add: round_half_even_def Let_def)

lemma round_half_even_near:
  assumes "real_of_int n \<le> t" and "t < real_of_int n + 1/2"
  shows "round_half_even t = n"
proof -
  from assms have "\<lfloor>t\<rfloor> = n" by (intro floor_unique) simp_all
  with assms(2) show ?thesis by (simp add: round_half_even_def Let_def)
qed

lemma round_half_even_of_int: "round_half_even (real_of_int n) = n"
  by (rule round_half_even_near) simp_all

lemma round_half_even_ge:
  assumes "real_of_int m \<le> t"
  shows "m \<le> round_half_even t"
proof -
  from assms have "m \<le> \<lfloor>t\<rfloor>" by (simp add: le_floor_iff)
  with round_half_even_bounds [of t] show ?thesis by simp
qed

lemma round_half_even_le:
  assumes "t \<le> real_of_int m"
  shows "round_half_even t \<le> m"
proof (cases "t = real_of_int m")
  case True
  then show ?thesis by (simp add: round_half_even_of_int)
next
  case False
  with assms have "t < real_of_int m" by simp
  then have "\<lfloor>t\<rfloor> < m" by (simp add: floor_less_iff)
  with round_half_even_bounds [of t] show ?thesis by simp
qed

lemma round_half_even_upper: "real_of_int (round_half_even t) \<le> t + 1"
proof -
  have "real_of_int (round_half_even t) \<le> real_of_int (\<lfloor>t\<rfloor> + 1)"
    using round_half_even_bounds [of t] by (simp only: of_int_le_iff)
  also have "\<dots> \<le> t + 1" by simp
  finally show ?thesis .
qed

lemma fl_round_pos:
  assumes "y > 0"
  shows "fl_round dt y =
           (if 2 powr (real_of_int (max \<lfloor>log 2 y\<rfloor> (emin dt) - int (precision dt) + 1))
                 * real_of_int (round_half_even
                     (y / 2 powr (real_of_int (max \<lfloor>log 2 y\<rfloor> (emin dt) - int (precision dt) + 1))))
               > max_float dt
            then None
            else Some (2 powr (real_of_int (max \<lfloor>log 2 y\<rfloor> (emin dt) - int (precision dt) + 1))
                 * real_of_int (round_half_even
                     (y / 2 powr (real_of_int (max \<lfloor>log 2 y\<rfloor> (emin dt) - int (precision dt) + 1))))))"
  using assms by (simp add: fl_round_def Let_def)

lemma two_powr_int: "0 \<le> k \<Longrightarrow> 2 powr (real_of_int k) = real_of_int (2 ^ nat k)"
proof -
  assume k: "0 \<le> k"
  have e: "real_of_int k = real (nat k)" using k by simp
  have "(2::real) powr (real (nat k)) = 2 ^ nat k" by (rule powr_realpow) simp
  then show ?thesis unfolding e by simp
qed

lemma max_float_ge:
  assumes "j \<le> emax dt"
  shows "2 powr (real_of_int j) \<le> max_float dt"
proof -
  have "1 - real (precision dt) \<le> 0" using dtype_wf(1) [of dt] by simp
  then have "(2::real) powr (1 - real (precision dt)) \<le> 2 powr 0"
    by (intro powr_mono) simp_all
  then have f: "1 \<le> 2 - (2::real) powr (1 - real (precision dt))" by simp
  have "(2::real) powr (real_of_int j) \<le> 2 powr (real_of_int (emax dt))"
    using assms by (intro powr_mono) simp_all
  also have "\<dots> = 1 * 2 powr (real_of_int (emax dt))" by simp
  also have "\<dots> \<le> (2 - 2 powr (1 - real (precision dt))) * 2 powr (real_of_int (emax dt))"
    using f by (intro mult_right_mono) simp_all
  finally show ?thesis by (simp add: max_float_def)
qed

lemma max_float_ge_one: "1 \<le> max_float dt"
  using max_float_ge [of 0 dt] dtype_wf(3) [of dt] by simp


lemma fl_round_decomp:
  assumes "y > 0"
  obtains u n where "u = 2 powr (real_of_int (max \<lfloor>log 2 y\<rfloor> (emin dt) - int (precision dt) + 1))"
    and "0 < u" and "n = round_half_even (y / u)"
    and "fl_round dt y = (if u * real_of_int n > max_float dt then None else Some (u * real_of_int n))"
proof -
  define u where "u = 2 powr (real_of_int (max \<lfloor>log 2 y\<rfloor> (emin dt) - int (precision dt) + 1))"
  define n where "n = round_half_even (y / u)"
  have "0 < u" by (simp add: u_def)
  moreover have "fl_round dt y = (if u * real_of_int n > max_float dt then None else Some (u * real_of_int n))"
    unfolding n_def u_def by (rule fl_round_pos [OF assms])
  ultimately show ?thesis using that [of u n] u_def n_def by blast
qed

lemma fl_round_nonneg:
  assumes "0 \<le> y" and "fl_round dt y = Some r"
  shows "0 \<le> r"
proof (cases "y = 0")
  case True
  with assms(2) show ?thesis by (simp add: fl_round_def)
next
  case False
  with assms(1) have pos: "0 < y" by simp
  from fl_round_decomp [OF pos, of dt] obtain u n where u: "0 < u"
    and n: "n = round_half_even (y / u)"
    and fl: "fl_round dt y = (if u * real_of_int n > max_float dt then None else Some (u * real_of_int n))"
    by blast
  have "real_of_int 0 \<le> y / u" using pos u by simp
  then have "0 \<le> n" unfolding n by (rule round_half_even_ge)
  then have "0 \<le> u * real_of_int n" using u by simp
  moreover from fl assms(2) have "r = u * real_of_int n" by (simp split: if_splits)
  ultimately show ?thesis by simp
qed

lemma fl_round_le_one:
  assumes "0 < y" and "y \<le> 1"
  shows "\<exists>r. fl_round dt y = Some r \<and> 0 \<le> r \<and> r \<le> 1"
proof -
  define k where "k = max \<lfloor>log 2 y\<rfloor> (emin dt) - int (precision dt) + 1"
  from fl_round_decomp [OF assms(1), of dt] obtain u n where ud: "u = 2 powr (real_of_int k)"
    and u: "0 < u" and n: "n = round_half_even (y / u)"
    and fl: "fl_round dt y = (if u * real_of_int n > max_float dt then None else Some (u * real_of_int n))"
    unfolding k_def by blast
  have "log 2 y \<le> 0" using assms by simp
  then have "\<lfloor>log 2 y\<rfloor> \<le> 0" by (simp add: floor_le_iff)
  then have "max \<lfloor>log 2 y\<rfloor> (emin dt) \<le> 0" using dtype_wf(2) [of dt] by simp
  then have k0: "k \<le> 0" unfolding k_def using dtype_wf(1) [of dt] by linarith
  have inv: "1 / u = real_of_int (2 ^ nat (- k))"
  proof -
    have "1 / u = 2 powr (real_of_int (- k))" by (simp add: ud powr_minus_divide)
    also have "\<dots> = real_of_int (2 ^ nat (- k))" using k0 by (intro two_powr_int) simp
    finally show ?thesis .
  qed
  have "y / u \<le> 1 / u" using assms(2) u by (simp add: divide_right_mono)
  then have "y / u \<le> real_of_int (2 ^ nat (- k))" by (simp only: inv)
  then have n_le: "n \<le> 2 ^ nat (- k)" unfolding n by (rule round_half_even_le)
  have "real_of_int 0 \<le> y / u" using assms(1) u by simp
  then have n_ge: "0 \<le> n" unfolding n by (rule round_half_even_ge)
  have r_ge: "0 \<le> u * real_of_int n" using u n_ge by simp
  have "real_of_int n \<le> real_of_int (2 ^ nat (- k))" using n_le by (simp only: of_int_le_iff)
  then have "u * real_of_int n \<le> u * real_of_int (2 ^ nat (- k))"
    using u by (intro mult_left_mono) simp_all
  also have "\<dots> = u * (1 / u)" by (simp only: inv)
  also have "\<dots> = 1" using u by simp
  finally have r_le: "u * real_of_int n \<le> 1" .
  have "\<not> u * real_of_int n > max_float dt" using r_le max_float_ge_one [of dt] by simp
  with fl have "fl_round dt y = Some (u * real_of_int n)" by simp
  with r_ge r_le show ?thesis by blast
qed

lemma fl_round_ge_one:
  assumes "1 \<le> y" and "fl_round dt y = Some r"
  shows "1 \<le> r"
proof -
  have pos: "0 < y" using assms(1) by simp
  define e where "e = \<lfloor>log 2 y\<rfloor>"
  have "0 \<le> log 2 y" using assms(1) by simp
  then have e0: "0 \<le> e" by (simp add: e_def)
  then have emax': "max e (emin dt) = e" using dtype_wf(2) [of dt] by simp
  from fl_round_decomp [OF pos, of dt] obtain u n
    where ud: "u = 2 powr (real_of_int (e - int (precision dt) + 1))"
    and u: "0 < u" and n: "n = round_half_even (y / u)"
    and fl: "fl_round dt y = (if u * real_of_int n > max_float dt then None else Some (u * real_of_int n))"
    unfolding e_def [symmetric] emax' by blast
  have "real_of_int e \<le> log 2 y" by (simp add: e_def)
  then have base: "2 powr (real_of_int e) \<le> y" using pos by (simp add: le_log_iff)
  have p1: "0 \<le> int (precision dt) - 1" using dtype_wf(1) [of dt] by simp
  have quot: "2 powr (real_of_int e) / u = real_of_int (2 ^ nat (int (precision dt) - 1))"
  proof -
    have "2 powr (real_of_int e) / u
            = 2 powr (real_of_int e - real_of_int (e - int (precision dt) + 1))"
      unfolding ud by (rule powr_diff [symmetric])
    also have "real_of_int e - real_of_int (e - int (precision dt) + 1)
                 = real_of_int (int (precision dt) - 1)" by simp
    also have "2 powr (real_of_int (int (precision dt) - 1))
                 = real_of_int (2 ^ nat (int (precision dt) - 1))"
      using p1 by (rule two_powr_int)
    finally show ?thesis .
  qed
  have "2 powr (real_of_int e) / u \<le> y / u" using base u by (simp add: divide_right_mono)
  then have "real_of_int (2 ^ nat (int (precision dt) - 1)) \<le> y / u" by (simp only: quot)
  then have "2 ^ nat (int (precision dt) - 1) \<le> n" unfolding n by (rule round_half_even_ge)
  then have "real_of_int (2 ^ nat (int (precision dt) - 1)) \<le> real_of_int n"
    by (simp only: of_int_le_iff)
  then have "u * real_of_int (2 ^ nat (int (precision dt) - 1)) \<le> u * real_of_int n"
    using u by (intro mult_left_mono) simp_all
  moreover have "u * real_of_int (2 ^ nat (int (precision dt) - 1)) = 2 powr (real_of_int e)"
    using u by (simp only: quot [symmetric]) simp
  moreover have "(2::real) powr 0 \<le> 2 powr (real_of_int e)"
    using e0 by (intro powr_mono) simp_all
  ultimately have "1 \<le> u * real_of_int n" by simp
  moreover from fl assms(2) have "r = u * real_of_int n" by (simp split: if_splits)
  ultimately show ?thesis by simp
qed

lemma fl_round_near_one:
  assumes "0 \<le> v" and "v < 2 powr (- real (precision dt))"
  shows "fl_round dt (1 + v) = Some 1"
proof -
  have pos: "0 < 1 + v" using assms(1) by simp
  have p3: "3 \<le> precision dt" by (rule dtype_wf(1))
  have "(2::real) powr (- real (precision dt)) \<le> 2 powr (- 1)"
    using p3 by (intro powr_mono) simp_all
  with assms(2) have "v < 2 powr (- 1)" by (rule less_le_trans)
  moreover have "(2::real) powr (- 1) = 1/2" by (simp add: powr_minus_divide)
  ultimately have v_half: "v < 1/2" by simp
  have "0 \<le> log 2 (1 + v)" using assms(1) by simp
  moreover have "log 2 (1 + v) < 1" using v_half pos by (simp add: log_less_iff)
  ultimately have fl0: "\<lfloor>log 2 (1 + v)\<rfloor> = 0" by (intro floor_unique) simp_all
  have m: "max (0::int) (emin dt) = 0" using dtype_wf(2) [of dt] by simp
  from fl_round_decomp [OF pos, of dt] obtain u n
    where ud: "u = 2 powr (real_of_int (0 - int (precision dt) + 1))"
    and u: "0 < u" and n: "n = round_half_even ((1 + v) / u)"
    and fl: "fl_round dt (1 + v)
               = (if u * real_of_int n > max_float dt then None else Some (u * real_of_int n))"
    unfolding fl0 m by blast
  define N :: int where "N = 2 ^ nat (int (precision dt) - 1)"
  have inv: "1 / u = real_of_int N"
  proof -
    have "1 / u = 2 powr (real_of_int (int (precision dt) - 1))"
      by (simp add: ud powr_minus_divide [symmetric])
    also have "\<dots> = real_of_int N" unfolding N_def using p3 by (intro two_powr_int) simp
    finally show ?thesis .
  qed
  have Npos: "0 < real_of_int N" by (simp add: N_def)
  have vN: "v * real_of_int N < 1/2"
  proof -
    have "v * real_of_int N < 2 powr (- real (precision dt)) * real_of_int N"
      using assms(2) Npos by (simp only: mult_less_cancel_right_pos)
    also have "\<dots> = 2 powr (- real (precision dt)) * 2 powr (real_of_int (int (precision dt) - 1))"
      unfolding N_def using p3 by (subst two_powr_int) simp_all
    also have "\<dots> = 2 powr (- real (precision dt) + real_of_int (int (precision dt) - 1))"
      by (rule powr_add [symmetric])
    also have "- real (precision dt) + real_of_int (int (precision dt) - 1) = - 1" by simp
    also have "(2::real) powr (- 1) = 1/2" by (simp add: powr_minus_divide)
    finally show ?thesis .
  qed
  have q: "(1 + v) / u = real_of_int N + v * real_of_int N"
  proof -
    have "(1 + v) / u = (1 + v) * (1 / u)" by simp
    also have "\<dots> = (1 + v) * real_of_int N" by (simp only: inv)
    also have "\<dots> = real_of_int N + v * real_of_int N" by (simp add: algebra_simps)
    finally show ?thesis .
  qed
  have "0 \<le> v * real_of_int N" using assms(1) Npos by simp
  then have "real_of_int N \<le> (1 + v) / u" unfolding q by simp
  moreover have "(1 + v) / u < real_of_int N + 1/2" unfolding q using vN by simp
  ultimately have nN: "n = N" unfolding n by (rule round_half_even_near)
  have r: "u * real_of_int n = 1"
  proof -
    have "u * real_of_int n = u * (1 / u)" by (simp only: nN inv)
    also have "\<dots> = 1" using u by simp
    finally show ?thesis .
  qed
  have "\<not> u * real_of_int n > max_float dt" using r max_float_ge_one [of dt] by simp
  with fl r show ?thesis by simp
qed

lemma fl_round_exact:
  assumes pos: "0 < y" and fl0: "\<lfloor>log 2 y\<rfloor> = e" and e: "emin dt \<le> e"
    and q: "y / 2 powr (real_of_int (e - int (precision dt) + 1)) = real_of_int N"
    and mx: "y \<le> max_float dt"
  shows "fl_round dt y = Some y"
proof -
  have m: "max e (emin dt) = e" using e by simp
  from fl_round_decomp [OF pos, of dt] obtain u n
    where ud: "u = 2 powr (real_of_int (e - int (precision dt) + 1))"
    and u: "0 < u" and n: "n = round_half_even (y / u)"
    and fl: "fl_round dt y = (if u * real_of_int n > max_float dt then None else Some (u * real_of_int n))"
    unfolding fl0 m by blast
  have "y / u = real_of_int N" unfolding ud by (rule q)
  then have nN: "n = N" and yu: "y = u * real_of_int N"
    using u unfolding n by (simp_all add: round_half_even_of_int field_simps)
  have r: "u * real_of_int n = y" by (simp only: nN yu [symmetric])
  have "\<not> u * real_of_int n > max_float dt" using r mx by simp
  with fl r show ?thesis by simp
qed

lemma fl_round_power_of_two:
  assumes "emin dt \<le> j" and "j \<le> emax dt"
  shows "fl_round dt (2 powr (real_of_int j)) = Some (2 powr (real_of_int j))"
proof (rule fl_round_exact [where e=j and N="2 ^ nat (int (precision dt) - 1)"])
  show "0 < (2::real) powr (real_of_int j)" by simp
  show "\<lfloor>log 2 (2 powr (real_of_int j))\<rfloor> = j" by simp
  show "emin dt \<le> j" by (rule assms(1))
  show "2 powr (real_of_int j) / 2 powr (real_of_int (j - int (precision dt) + 1))
          = real_of_int (2 ^ nat (int (precision dt) - 1))"
  proof -
    have "2 powr (real_of_int j) / 2 powr (real_of_int (j - int (precision dt) + 1))
            = 2 powr (real_of_int j - real_of_int (j - int (precision dt) + 1))"
      by (rule powr_diff [symmetric])
    also have "real_of_int j - real_of_int (j - int (precision dt) + 1)
                 = real_of_int (int (precision dt) - 1)" by simp
    also have "2 powr (real_of_int (int (precision dt) - 1))
                 = real_of_int (2 ^ nat (int (precision dt) - 1))"
      using dtype_wf(1) [of dt] by (intro two_powr_int) simp
    finally show ?thesis .
  qed
  show "2 powr (real_of_int j) \<le> max_float dt" using assms(2) by (rule max_float_ge)
qed

lemma fl_round_one: "fl_round dt 1 = Some 1"
  using fl_round_power_of_two [of dt 0] dtype_wf [of dt] by simp

lemma fl_round_two: "fl_round dt 2 = Some 2"
  using fl_round_power_of_two [of dt 1] dtype_wf [of dt] by simp

lemma fl_round_half: "fl_round dt (1/2) = Some (1/2)"
  using fl_round_power_of_two [of dt "- 1"] dtype_wf [of dt] by (simp add: powr_minus_divide)

lemma fl_round_eight: "fl_round dt 8 = Some 8"
  using fl_round_power_of_two [of dt 3] dtype_wf [of dt] by simp

lemma fl_round_eighth: "fl_round dt (1/8) = Some (1/8)"
  using fl_round_power_of_two [of dt "- 3"] dtype_wf [of dt] by (simp add: powr_minus_divide)

lemma fl_round_seven: "fl_round dt 7 = Some 7"
proof (rule fl_round_exact [where e=2 and N="7 * 2 ^ nat (int (precision dt) - 3)"])
  show "0 < (7::real)" by simp
  have "real_of_int 2 \<le> log 2 7" by (simp add: le_log_iff)
  moreover have "log 2 7 < real_of_int 2 + 1" by (simp add: log_less_iff)
  ultimately show "\<lfloor>log 2 (7::real)\<rfloor> = 2" by (rule floor_unique)
  show "emin dt \<le> 2" using dtype_wf(2) [of dt] by simp
  show "7 / 2 powr (real_of_int (2 - int (precision dt) + 1))
          = real_of_int (7 * 2 ^ nat (int (precision dt) - 3))"
  proof -
    have "7 / 2 powr (real_of_int (2 - int (precision dt) + 1))
            = 7 * (1 / 2 powr (real_of_int (2 - int (precision dt) + 1)))"
      by simp
    also have "1 / 2 powr (real_of_int (2 - int (precision dt) + 1))
                 = 2 powr (- real_of_int (2 - int (precision dt) + 1))"
      by (rule powr_minus_divide [symmetric])
    also have "- real_of_int (2 - int (precision dt) + 1) = real_of_int (int (precision dt) - 3)"
      by simp
    also have "2 powr (real_of_int (int (precision dt) - 3))
                 = real_of_int (2 ^ nat (int (precision dt) - 3))"
      using dtype_wf(1) [of dt] by (intro two_powr_int) simp
    finally show ?thesis by simp
  qed
  have "(7::real) \<le> 2 powr (real_of_int 3)" by simp
  also have "\<dots> \<le> max_float dt" using dtype_wf(3) [of dt] by (intro max_float_ge)
  finally show "(7::real) \<le> max_float dt" .
qed

lemma exp_minus_100: "0 < exp (- 100 :: real) \<and> exp (- 100 :: real) \<le> 2 powr (- 100)"
proof -
  have "(2::real) \<le> exp 1" using exp_ge_add_one_self [of "1::real"] by simp
  then have "(2::real) ^ 100 \<le> exp 1 ^ 100" by (intro power_mono) simp_all
  also have "exp (1::real) ^ 100 = exp (real 100 * 1)" by (rule exp_of_nat_mult [symmetric])
  finally have "(2::real) ^ 100 \<le> exp 100" by simp
  then have "inverse (exp (100::real)) \<le> inverse (2 ^ 100)"
    by (intro le_imp_inverse_le) simp_all
  moreover have "exp (- 100 :: real) = inverse (exp 100)" by (rule exp_minus)
  moreover have "(2::real) powr (- 100) = inverse (2 ^ 100)"
    by (simp add: powr_minus inverse_eq_divide)
  ultimately show ?thesis by simp
qed

lemma fl_round_tiny:
  assumes "0 < y" and "y \<le> 2 powr (- 100)"
  shows "\<exists>v. fl_round Float64 y = Some v \<and> 0 \<le> v \<and> v < 2 powr (- 53)"
proof -
  from fl_round_decomp [OF assms(1), of Float64] obtain u n
    where ud: "u = 2 powr (real_of_int (max \<lfloor>log 2 y\<rfloor> (emin Float64) - int (precision Float64) + 1))"
    and u: "0 < u" and n: "n = round_half_even (y / u)"
    and fl: "fl_round Float64 y
               = (if u * real_of_int n > max_float Float64 then None else Some (u * real_of_int n))"
    by blast
  have "log 2 y \<le> - 100" using assms by (simp add: log_le_iff)
  then have "\<lfloor>log 2 y\<rfloor> \<le> - 100" by (simp add: floor_le_iff)
  then have "max \<lfloor>log 2 y\<rfloor> (emin Float64) \<le> - 100" by simp
  moreover have "int (precision Float64) = 53" by simp
  ultimately have "max \<lfloor>log 2 y\<rfloor> (emin Float64) - int (precision Float64) + 1 \<le> - 100"
    by linarith
  then have "real_of_int (max \<lfloor>log 2 y\<rfloor> (emin Float64) - int (precision Float64) + 1)
               \<le> real_of_int (- 100)"
    by (simp only: of_int_le_iff)
  then have "u \<le> 2 powr (real_of_int (- 100))" unfolding ud by (intro powr_mono) simp_all
  then have u100: "u \<le> 2 powr (- 100)" by simp
  have "real_of_int 0 \<le> y / u" using assms(1) u by simp
  then have "0 \<le> n" unfolding n by (rule round_half_even_ge)
  then have ge: "0 \<le> u * real_of_int n" using u by simp
  have "real_of_int n \<le> y / u + 1" unfolding n by (rule round_half_even_upper)
  then have "u * real_of_int n \<le> u * (y / u + 1)" using u by (intro mult_left_mono) simp_all
  also have "\<dots> = y + u" using u by (simp add: algebra_simps)
  also have "\<dots> \<le> 2 powr (- 100) + 2 powr (- 100)" using assms(2) u100 by simp
  also have "\<dots> = 2 powr (- 99)" by (simp add: powr_minus_divide)
  also have "\<dots> < 2 powr (- 53)" by (simp add: powr_minus_divide)
  finally have lt: "u * real_of_int n < 2 powr (- 53)" .
  have "(2::real) powr (- 53) \<le> 2 powr 0" by (intro powr_mono) simp_all
  with lt have "u * real_of_int n \<le> 1" by simp
  then have "\<not> u * real_of_int n > max_float Float64" using max_float_ge_one [of Float64] by simp
  with fl have "fl_round Float64 y = Some (u * real_of_int n)" by simp
  with ge lt show ?thesis by blast
qed

lemma np_logistic_range: "0 \<le> np_logistic dt x \<and> np_logistic dt x \<le> 1"
proof (cases "fl_round dt (exp (- x))")
  case None
  then show ?thesis by (simp add: np_logistic_def)
next
  case (Some e)
  have "0 \<le> exp (- x)" by simp
  then have e0: "0 \<le> e" using Some by (rule fl_round_nonneg)
  show ?thesis
  proof (cases "fl_round dt (1 + e)")
    case None
    with Some show ?thesis by (simp add: np_logistic_def)
  next
    case w: (Some w)
    have "1 \<le> 1 + e" using e0 by simp
    then have w1: "1 \<le> w" using w by (rule fl_round_ge_one)
    then have "0 < 1 / w" and "1 / w \<le> 1" by simp_all
    then obtain s where "fl_round dt (1 / w) = Some s" and "0 \<le> s" and "s \<le> 1"
      using fl_round_le_one [of "1 / w" dt] by blast
    with Some w show ?thesis by (simp add: np_logistic_def)
  qed
qed

lemma np_logistic_zero: "np_logistic dt 0 = 1/2"
  by (simp add: np_logistic_def fl_round_one fl_round_two fl_round_half)

lemma np_logistic_minus_ln_7: "np_logistic dt (- ln 7) = 1/8"
  by (simp add: np_logistic_def fl_round_seven fl_round_eight fl_round_eighth)

lemma np_logistic_100: "np_logistic Float64 100 = 1"
proof -
  from exp_minus_100 fl_round_tiny [of "exp (- 100)"]
  obtain v where v: "fl_round Float64 (exp (- 100)) = Some v" and "0 \<le> v" and "v < 2 powr (- 53)"
    by blast
  then have "fl_round Float64 (1 + v) = Some 1"
    by (intro fl_round_near_one) simp_all
  with v show ?thesis by (simp add: np_logistic_def fl_round_one)
qed

lemma logistic_100_below_one: "1 / (1 + exp (- 100 :: real)) < 1"
proof -
  have "0 < 1 + exp (- 100 :: real)" by (simp add: add_pos_pos)
  then show ?thesis by (subst divide_less_eq_1_pos) simp_all
qed

section \<open>Properties of the grader\<close>

lemma grade_loop_correct:
  "correct (grade_loop rr g ps)
     = correct g @ map (\<lambda>(d, s). d\<lparr>rerank_score := Some s\<rparr>)
                       (filter (\<lambda>(d, s). high_threshold rr \<le> s) ps)"
  by (induction rr g ps rule: grade_loop.induct) (simp_all add: Let_def)

lemma grade_loop_ambiguous:
  "ambiguous (grade_loop rr g ps)
     = ambiguous g @ map (\<lambda>(d, s). d\<lparr>rerank_score := Some s\<rparr>)
                       (filter (\<lambda>(d, s). low_threshold rr \<le> s \<and> s < high_threshold rr) ps)"
  by (induction rr g ps rule: grade_loop.induct) (simp_all add: Let_def not_le)

lemma grade_loop_incorrect:
  "low_threshold rr \<le> high_threshold rr \<Longrightarrow>
   incorrect (grade_loop rr g ps)
     = incorrect g @ map (\<lambda>(d, s). d\<lparr>rerank_score := Some s\<rparr>)
                       (filter (\<lambda>(d, s). s < low_threshold rr) ps)"
  by (induction rr g ps rule: grade_loop.induct) (auto simp add: Let_def not_le)

lemma grade_documents_loop:
  "grade_documents rr query documents
     = grade_loop rr \<lparr>correct = [], ambiguous = [], incorrect = []\<rparr>
         (zip documents (get_scores rr query documents))"
  by (simp add: grade_documents_def get_scores_def Let_def)

lemma tagged_mem:
  "(d, s) \<in> set ps \<Longrightarrow>
   d\<lparr>rerank_score := Some s\<rparr> \<in> set (map (\<lambda>(d, s). d\<lparr>rerank_score := Some s\<rparr>) (filter (\<lambda>(d, s). P s) ps))
     \<longleftrightarrow> P s"
proof
  assume "d\<lparr>rerank_score := Some s\<rparr> \<in> set (map (\<lambda>(d, s). d\<lparr>rerank_score := Some s\<rparr>) (filter (\<lambda>(d, s). P s) ps))"
  then obtain d' s' where "P s'" and eq: "d\<lparr>rerank_score := Some s\<rparr> = d'\<lparr>rerank_score := Some s'\<rparr>"
    by auto
  from eq have "rerank_score (d\<lparr>rerank_score := Some s\<rparr>) = rerank_score (d'\<lparr>rerank_score := Some s'\<rparr>)"
    by (rule arg_cong)
  then have "s = s'" by simp
  with \<open>P s'\<close> show "P s" by simp
next
  assume "(d, s) \<in> set ps" and "P s"
  then have "(d, s) \<in> set (filter (\<lambda>(d, s). P s) ps)" by simp
  then have "(\<lambda>(d, s). d\<lparr>rerank_score := Some s\<rparr>) (d, s)
               \<in> (\<lambda>(d, s). d\<lparr>rerank_score := Some s\<rparr>) ` set (filter (\<lambda>(d, s). P s) ps)"
    by (rule imageI)
  then show "d\<lparr>rerank_score := Some s\<rparr> \<in> set (map (\<lambda>(d, s). d\<lparr>rerank_score := Some s\<rparr>) (filter (\<lambda>(d, s). P s) ps))"
    by simp
qed

lemma init_thresholds:
  "high_threshold (init_reranker model) = 1/2" "low_threshold (init_reranker model) = 1/5"
  by (simp_all add: init_reranker_def)

lemma grade_buckets:
  fixes model query documents
  defines "g \<equiv> grade_documents (init_reranker model) query documents"
    and "ps \<equiv> zip documents (get_scores (init_reranker model) query documents)"
  shows "correct g = map (\<lambda>(d, s). d\<lparr>rerank_score := Some s\<rparr>) (filter (\<lambda>(d, s). 1/2 \<le> s) ps)"
    and "ambiguous g = map (\<lambda>(d, s). d\<lparr>rerank_score := Some s\<rparr>) (filter (\<lambda>(d, s). 1/5 \<le> s \<and> s < 1/2) ps)"
    and "incorrect g = map (\<lambda>(d, s). d\<lparr>rerank_score := Some s\<rparr>) (filter (\<lambda>(d, s). s < 1/5) ps)"
proof -
  let ?rr = "init_reranker model"
  let ?g0 = "\<lparr>correct = [], ambiguous = [], incorrect = []\<rparr>"
  have le: "low_threshold ?rr \<le> high_threshold ?rr" by (simp add: init_thresholds)
  have "correct (grade_loop ?rr ?g0 ps) = correct ?g0 @ map (\<lambda>(d, s). d\<lparr>rerank_score := Some s\<rparr>)
          (filter (\<lambda>(d, s). high_threshold ?rr \<le> s) ps)"
    by (rule grade_loop_correct)
  then show "correct g = map (\<lambda>(d, s). d\<lparr>rerank_score := Some s\<rparr>) (filter (\<lambda>(d, s). 1/2 \<le> s) ps)"
    unfolding g_def ps_def grade_documents_loop
    by (simp only: init_thresholds graded.select_convs append_Nil)
  have "ambiguous (grade_loop ?rr ?g0 ps) = ambiguous ?g0 @ map (\<lambda>(d, s). d\<lparr>rerank_score := Some s\<rparr>)
          (filter (\<lambda>(d, s). low_threshold ?rr \<le> s \<and> s < high_threshold ?rr) ps)"
    by (rule grade_loop_ambiguous)
  then show "ambiguous g = map (\<lambda>(d, s). d\<lparr>rerank_score := Some s\<rparr>) (filter (\<lambda>(d, s). 1/5 \<le> s \<and> s < 1/2) ps)"
    unfolding g_def ps_def grade_documents_loop
    by (simp only: init_thresholds graded.select_convs append_Nil)
  have "incorrect (grade_loop ?rr ?g0 ps) = incorrect ?g0 @ map (\<lambda>(d, s). d\<lparr>rerank_score := Some s\<rparr>)
          (filter (\<lambda>(d, s). s < low_threshold ?rr) ps)"
    using le by (rule grade_loop_incorrect)
  then show "incorrect g = map (\<lambda>(d, s). d\<lparr>rerank_score := Some s\<rparr>) (filter (\<lambda>(d, s). s < 1/5) ps)"
    unfolding g_def ps_def grade_documents_loop
    by (simp only: init_thresholds graded.select_convs append_Nil)
qed

lemma grade_membership:
  assumes "(d, s) \<in> set (zip documents (get_scores (init_reranker model) query documents))"
  shows "d\<lparr>rerank_score := Some s\<rparr> \<in> set (correct (grade_documents (init_reranker model) query documents))
           \<longleftrightarrow> 1/2 \<le> s"
    and "d\<lparr>rerank_score := Some s\<rparr> \<in> set (ambiguous (grade_documents (init_reranker model) query documents))
           \<longleftrightarrow> 1/5 \<le> s \<and> s < 1/2"
    and "d\<lparr>rerank_score := Some s\<rparr> \<in> set (incorrect (grade_documents (init_reranker model) query documents))
           \<longleftrightarrow> s < 1/5"
proof -
  show "d\<lparr>rerank_score := Some s\<rparr> \<in> set (correct (grade_documents (init_reranker model) query documents))
           \<longleftrightarrow> 1/2 \<le> s"
    unfolding grade_buckets by (rule tagged_mem [OF assms, of "\<lambda>s. 1/2 \<le> s"])
  show "d\<lparr>rerank_score := Some s\<rparr> \<in> set (ambiguous (grade_documents (init_reranker model) query documents))
           \<longleftrightarrow> 1/5 \<le> s \<and> s < 1/2"
    unfolding grade_buckets by (rule tagged_mem [OF assms, of "\<lambda>s. 1/5 \<le> s \<and> s < 1/2"])
  show "d\<lparr>rerank_score := Some s\<rparr> \<in> set (incorrect (grade_documents (init_reranker model) query documents))
           \<longleftrightarrow> s < 1/5"
    unfolding grade_buckets by (rule tagged_mem [OF assms, of "\<lambda>s. s < 1/5"])
qed

lemma grade_rank:
  assumes "(d, s) \<in> set (zip documents (get_scores (init_reranker model) query documents))"
  shows "bucket_rank (grade_documents (init_reranker model) query documents) (d\<lparr>rerank_score := Some s\<rparr>)
           = (if 1/2 \<le> s then 2 else if 1/5 \<le> s then 1 else 0)"
  unfolding bucket_rank_def using grade_membership [OF assms] by simp

lemma grade_total:
  "length (correct (grade_loop rr g ps)) + length (ambiguous (grade_loop rr g ps))
     + length (incorrect (grade_loop rr g ps))
   = length (correct g) + length (ambiguous g) + length (incorrect g) + length ps"
  by (induction rr g ps rule: grade_loop.induct) (simp_all add: Let_def)

lemma get_scores_length:
  "length (elems (predict rr (map (\<lambda>doc. (query, scoring_text doc)) documents))) = length documents \<Longrightarrow>
   length (get_scores rr query documents) = length documents"
  by (simp add: get_scores_def Let_def)


text \<open>
  Claim C4. With the thresholds of \<^verbatim>\<open>__init__\<close> (high 0.5, low 0.2), \<^verbatim>\<open>grade_documents\<close>
  puts every scored document in exactly one bucket, decided by its score \<open>s\<close>: in
  \<open>correct\<close> iff \<open>0.5 \<le> s\<close>, in \<open>ambiguous\<close> iff \<open>0.2 \<le> s < 0.5\<close>, in \<open>incorrect\<close> iff
  \<open>s < 0.2\<close>; when the model returns one score per document, the three buckets together
  hold as many documents as the input. Grading is monotone: of two graded documents, the
  one with the higher score is never in a lower-trust bucket. A document is identified with
  its dict after the score is written on it.
\<close>

theorem grade_documents_partition:
  "(\<forall>(d, s) \<in> set (zip documents (get_scores (init_reranker model) query documents)).
      (d\<lparr>rerank_score := Some s\<rparr>
          \<in> set (correct (grade_documents (init_reranker model) query documents)) \<longleftrightarrow> 1/2 \<le> s)
    \<and> (d\<lparr>rerank_score := Some s\<rparr>
          \<in> set (ambiguous (grade_documents (init_reranker model) query documents))
            \<longleftrightarrow> 1/5 \<le> s \<and> s < 1/2)
    \<and> (d\<lparr>rerank_score := Some s\<rparr>
          \<in> set (incorrect (grade_documents (init_reranker model) query documents)) \<longleftrightarrow> s < 1/5))
   \<and> (length (elems (model (map (\<lambda>doc. (query, scoring_text doc)) documents))) = length documents \<longrightarrow>
        length (correct (grade_documents (init_reranker model) query documents))
          + length (ambiguous (grade_documents (init_reranker model) query documents))
          + length (incorrect (grade_documents (init_reranker model) query documents))
        = length documents)
   \<and> (\<forall>(d, s) \<in> set (zip documents (get_scores (init_reranker model) query documents)).
       \<forall>(d', s') \<in> set (zip documents' (get_scores (init_reranker model') query' documents')).
         s \<le> s' \<longrightarrow>
           bucket_rank (grade_documents (init_reranker model) query documents)
               (d\<lparr>rerank_score := Some s\<rparr>)
             \<le> bucket_rank (grade_documents (init_reranker model') query' documents')
                 (d'\<lparr>rerank_score := Some s'\<rparr>))"
proof (intro conjI)
  show "\<forall>(d, s) \<in> set (zip documents (get_scores (init_reranker model) query documents)).
      (d\<lparr>rerank_score := Some s\<rparr>
          \<in> set (correct (grade_documents (init_reranker model) query documents)) \<longleftrightarrow> 1/2 \<le> s)
    \<and> (d\<lparr>rerank_score := Some s\<rparr>
          \<in> set (ambiguous (grade_documents (init_reranker model) query documents))
            \<longleftrightarrow> 1/5 \<le> s \<and> s < 1/2)
    \<and> (d\<lparr>rerank_score := Some s\<rparr>
          \<in> set (incorrect (grade_documents (init_reranker model) query documents)) \<longleftrightarrow> s < 1/5)"
    using grade_membership by blast
next
  show "length (elems (model (map (\<lambda>doc. (query, scoring_text doc)) documents))) = length documents \<longrightarrow>
        length (correct (grade_documents (init_reranker model) query documents))
          + length (ambiguous (grade_documents (init_reranker model) query documents))
          + length (incorrect (grade_documents (init_reranker model) query documents))
        = length documents"
  proof
    assume "length (elems (model (map (\<lambda>doc. (query, scoring_text doc)) documents))) = length documents"
    then have "length (elems (predict (init_reranker model) (map (\<lambda>doc. (query, scoring_text doc)) documents)))
                 = length documents"
      by (simp add: init_reranker_def)
    then have "length (get_scores (init_reranker model) query documents) = length documents"
      by (rule get_scores_length)
    then have "length (zip documents (get_scores (init_reranker model) query documents)) = length documents"
      by simp
    then show "length (correct (grade_documents (init_reranker model) query documents))
          + length (ambiguous (grade_documents (init_reranker model) query documents))
          + length (incorrect (grade_documents (init_reranker model) query documents))
        = length documents"
      unfolding grade_documents_loop grade_total by simp
  qed
next
  show "\<forall>(d, s) \<in> set (zip documents (get_scores (init_reranker model) query documents)).
       \<forall>(d', s') \<in> set (zip documents' (get_scores (init_reranker model') query' documents')).
         s \<le> s' \<longrightarrow>
           bucket_rank (grade_documents (init_reranker model) query documents)
               (d\<lparr>rerank_score := Some s\<rparr>)
             \<le> bucket_rank (grade_documents (init_reranker model') query' documents')
                 (d'\<lparr>rerank_score := Some s'\<rparr>)"
  proof (intro ballI, clarify)
    fix d s d' s'
    assume a: "(d, s) \<in> set (zip documents (get_scores (init_reranker model) query documents))"
      and b: "(d', s') \<in> set (zip documents' (get_scores (init_reranker model') query' documents'))"
      and le: "s \<le> s'"
    show "bucket_rank (grade_documents (init_reranker model) query documents)
               (d\<lparr>rerank_score := Some s\<rparr>)
             \<le> bucket_rank (grade_documents (init_reranker model') query' documents')
                 (d'\<lparr>rerank_score := Some s'\<rparr>)"
      unfolding grade_rank [OF a] grade_rank [OF b] using le by simp
  qed
qed

text \<open>
  A run of the grader on two documents: the first is scored 1/2 and graded correct, the
  second is scored 1/8 and graded incorrect.
\<close>

lemma example_scores:
  "get_scores (init_reranker example_model) ''q'' [doc_empty_full, mk_chunk ''c'' ''u'' 0 0]
     = [1/2, 1/8]"
  by (simp add: get_scores_def init_reranker_def example_model_def scoring_text_def
        doc_empty_full_def mk_chunk_def get_content_def Let_def
        np_logistic_zero np_logistic_minus_ln_7)

theorem grade_documents_partition_witness:
  "(doc_empty_full, 1/2) \<in> set (zip [doc_empty_full, mk_chunk ''c'' ''u'' 0 0]
      (get_scores (init_reranker example_model) ''q'' [doc_empty_full, mk_chunk ''c'' ''u'' 0 0]))
   \<and> (mk_chunk ''c'' ''u'' 0 0, 1/8) \<in> set (zip [doc_empty_full, mk_chunk ''c'' ''u'' 0 0]
      (get_scores (init_reranker example_model) ''q'' [doc_empty_full, mk_chunk ''c'' ''u'' 0 0]))
   \<and> doc_empty_full\<lparr>rerank_score := Some (1/2)\<rparr>
        \<in> set (correct (grade_documents (init_reranker example_model) ''q''
                  [doc_empty_full, mk_chunk ''c'' ''u'' 0 0]))
   \<and> (mk_chunk ''c'' ''u'' 0 0)\<lparr>rerank_score := Some (1/8)\<rparr>
        \<in> set (incorrect (grade_documents (init_reranker example_model) ''q''
                  [doc_empty_full, mk_chunk ''c'' ''u'' 0 0]))
   \<and> length (correct (grade_documents (init_reranker example_model) ''q''
                  [doc_empty_full, mk_chunk ''c'' ''u'' 0 0]))
        + length (ambiguous (grade_documents (init_reranker example_model) ''q''
                  [doc_empty_full, mk_chunk ''c'' ''u'' 0 0]))
        + length (incorrect (grade_documents (init_reranker example_model) ''q''
                  [doc_empty_full, mk_chunk ''c'' ''u'' 0 0])) = 2
   \<and> bucket_rank (grade_documents (init_reranker example_model) ''q''
                  [doc_empty_full, mk_chunk ''c'' ''u'' 0 0])
          ((mk_chunk ''c'' ''u'' 0 0)\<lparr>rerank_score := Some (1/8)\<rparr>)
        \<le> bucket_rank (grade_documents (init_reranker example_model) ''q''
                  [doc_empty_full, mk_chunk ''c'' ''u'' 0 0])
          (doc_empty_full\<lparr>rerank_score := Some (1/2)\<rparr>)"
proof -
  let ?docs = "[doc_empty_full, mk_chunk ''c'' ''u'' 0 0]"
  let ?ps = "zip ?docs (get_scores (init_reranker example_model) ''q'' ?docs)"
  have m1: "(doc_empty_full, 1/2) \<in> set ?ps"
    and m2: "(mk_chunk ''c'' ''u'' 0 0, 1/8) \<in> set ?ps"
    by (simp_all only: example_scores zip_Cons_Cons zip_Nil list.set insert_iff simp_thms)
  have len: "length (elems (example_model (map (\<lambda>doc. (''q'', scoring_text doc)) ?docs))) = length ?docs"
    by (simp add: example_model_def)
  have le: "(1/8 :: real) \<le> 1/2" by simp
  note t = grade_documents_partition [of ?docs example_model "''q''" ?docs example_model "''q''"]
  from t m1 have c1: "doc_empty_full\<lparr>rerank_score := Some (1/2)\<rparr>
        \<in> set (correct (grade_documents (init_reranker example_model) ''q'' ?docs))"
    by fastforce
  from t m2 have c2: "(mk_chunk ''c'' ''u'' 0 0)\<lparr>rerank_score := Some (1/8)\<rparr>
        \<in> set (incorrect (grade_documents (init_reranker example_model) ''q'' ?docs))"
    by fastforce
  from t len have c3: "length (correct (grade_documents (init_reranker example_model) ''q'' ?docs))
        + length (ambiguous (grade_documents (init_reranker example_model) ''q'' ?docs))
        + length (incorrect (grade_documents (init_reranker example_model) ''q'' ?docs)) = 2"
    by simp
  from t m1 m2 le have c4: "bucket_rank (grade_documents (init_reranker example_model) ''q'' ?docs)
          ((mk_chunk ''c'' ''u'' 0 0)\<lparr>rerank_score := Some (1/8)\<rparr>)
        \<le> bucket_rank (grade_documents (init_reranker example_model) ''q'' ?docs)
          (doc_empty_full\<lparr>rerank_score := Some (1/2)\<rparr>)"
    by fast
  from m1 m2 c1 c2 c3 c4 show ?thesis by (intro conjI)
qed

subsection \<open>Scores\<close>

lemma scoring_text_take:
  "scoring_text doc =
     take 1000 (case full_content doc of
                  None \<Rightarrow> get_content doc
                | Some s \<Rightarrow> if s \<noteq> [] then s else get_content doc)"
  by (simp add: scoring_text_def Let_def)

lemma get_scores_nonempty:
  "documents \<noteq> [] \<Longrightarrow>
   get_scores rr query documents
     = map (np_logistic (dtype (predict rr (map (\<lambda>doc. (query, scoring_text doc)) documents))))
         (elems (predict rr (map (\<lambda>doc. (query, scoring_text doc)) documents)))"
  by (simp add: get_scores_def Let_def)

lemma get_scores_range: "s \<in> set (get_scores rr query documents) \<Longrightarrow> 0 \<le> s \<and> s \<le> 1"
proof (cases "documents = []")
  case True
  assume "s \<in> set (get_scores rr query documents)"
  with True show ?thesis by (simp add: get_scores_def)
next
  case False
  assume "s \<in> set (get_scores rr query documents)"
  then obtain x where
    "s = np_logistic (dtype (predict rr (map (\<lambda>doc. (query, scoring_text doc)) documents))) x"
    unfolding get_scores_nonempty [OF False] by auto
  then show ?thesis by (simp only: np_logistic_range)
qed

lemma get_scores_nth:
  assumes "length (elems (predict rr (map (\<lambda>doc. (query, scoring_text doc)) documents)))
             = length documents"
    and "i < length documents"
  shows "get_scores rr query documents ! i
           = np_logistic (dtype (predict rr (map (\<lambda>doc. (query, scoring_text doc)) documents)))
               (elems (predict rr (map (\<lambda>doc. (query, scoring_text doc)) documents)) ! i)"
proof -
  from assms(2) have ne: "documents \<noteq> []" by auto
  show ?thesis
    unfolding get_scores_nonempty [OF ne] using assms by simp
qed

text \<open>
  Claim C6, as amended. For every document given to \<^verbatim>\<open>get_scores\<close>, the text scored against
  the query is \<open>full_content\<close> when it is present and not empty, else \<open>content\<close>, cut to its
  first 1000 characters. Each returned score is the logistic function \<open>1 / (1 + e\<^sup>-\<^sup>x)\<close> of
  the raw output \<open>x\<close> of the model for that pair as numpy evaluates it in floating point, so
  every returned score lies between 0 and 1, the end points included; when the model
  returns one raw score per pair, the output has the length of the input.
\<close>

theorem get_scores_logistic:
  "(\<forall>s. full_content doc = Some s \<and> s \<noteq> [] \<longrightarrow> scoring_text doc = take 1000 s)
   \<and> (full_content doc = None \<or> full_content doc = Some [] \<longrightarrow>
        scoring_text doc = take 1000 (get_content doc))
   \<and> (documents \<noteq> [] \<longrightarrow>
        get_scores rr query documents
          = map (np_logistic (dtype (predict rr (map (\<lambda>doc. (query, scoring_text doc)) documents))))
              (elems (predict rr (map (\<lambda>doc. (query, scoring_text doc)) documents))))
   \<and> (\<forall>s \<in> set (get_scores rr query documents). 0 \<le> s \<and> s \<le> 1)
   \<and> (length (elems (predict rr (map (\<lambda>doc. (query, scoring_text doc)) documents)))
         = length documents \<longrightarrow>
        length (get_scores rr query documents) = length documents
        \<and> (\<forall>i < length documents.
              get_scores rr query documents ! i
                = np_logistic (dtype (predict rr (map (\<lambda>doc. (query, scoring_text doc)) documents)))
                    (elems (predict rr (map (\<lambda>doc. (query, scoring_text doc)) documents)) ! i)))"
proof (intro conjI)
  show "\<forall>s. full_content doc = Some s \<and> s \<noteq> [] \<longrightarrow> scoring_text doc = take 1000 s"
    by (simp add: scoring_text_take)
  show "full_content doc = None \<or> full_content doc = Some [] \<longrightarrow>
        scoring_text doc = take 1000 (get_content doc)"
    by (auto simp add: scoring_text_take)
  show "documents \<noteq> [] \<longrightarrow>
        get_scores rr query documents
          = map (np_logistic (dtype (predict rr (map (\<lambda>doc. (query, scoring_text doc)) documents))))
              (elems (predict rr (map (\<lambda>doc. (query, scoring_text doc)) documents)))"
    using get_scores_nonempty by blast
  show "\<forall>s \<in> set (get_scores rr query documents). 0 \<le> s \<and> s \<le> 1"
    using get_scores_range by blast
  show "length (elems (predict rr (map (\<lambda>doc. (query, scoring_text doc)) documents)))
         = length documents \<longrightarrow>
        length (get_scores rr query documents) = length documents
        \<and> (\<forall>i < length documents.
              get_scores rr query documents ! i
                = np_logistic (dtype (predict rr (map (\<lambda>doc. (query, scoring_text doc)) documents)))
                    (elems (predict rr (map (\<lambda>doc. (query, scoring_text doc)) documents)) ! i))"
    using get_scores_length get_scores_nth by blast
qed

text \<open>
  Claim C6 as stated fails twice. On a document whose \<open>full_content\<close> is present and is the
  empty string, \<^verbatim>\<open>doc.get("full_content") or doc.get("content", "")\<close> takes \<open>content\<close>, so
  the text scored is \<open>abc\<close> and not the (empty) \<open>full_content\<close>. And for the raw score 100 in
  a \<open>Float64\<close> array, \<^verbatim>\<open>np.exp(-100)\<close> is below half the distance from 1.0 to the next
  float, so \<^verbatim>\<open>1 + np.exp(-100)\<close> is 1.0 and the returned score is exactly 1.0: it is not
  below 1, and it is not the value of the logistic function, which is below 1.
\<close>

theorem get_scores_empty_full_content_and_saturation:
  "full_content doc_empty_full = Some []
   \<and> content doc_empty_full = Some ''abc''
   \<and> scoring_text doc_empty_full = ''abc''
   \<and> elems (confident_model [(''q'', scoring_text doc_empty_full)]) = [100]
   \<and> get_scores (init_reranker confident_model) ''q'' [doc_empty_full] = [1]
   \<and> 1 / (1 + exp (- 100 :: real)) < 1"
proof -
  have a: "full_content doc_empty_full = Some []" "content doc_empty_full = Some ''abc''"
    "scoring_text doc_empty_full = ''abc''"
    by (simp_all add: doc_empty_full_def scoring_text_def get_content_def)
  have b: "elems (confident_model [(''q'', scoring_text doc_empty_full)]) = [100]"
    by (simp add: confident_model_def)
  have c: "get_scores (init_reranker confident_model) ''q'' [doc_empty_full] = [1]"
    by (simp add: get_scores_def init_reranker_def confident_model_def Let_def np_logistic_100)
  from a b c logistic_100_below_one show ?thesis by (intro conjI)
qed

theorem get_scores_logistic_witness:
  "full_content doc_empty_full = Some []
   \<and> scoring_text doc_empty_full = take 1000 (get_content doc_empty_full)
   \<and> [doc_empty_full, mk_chunk ''c'' ''u'' 0 0] \<noteq> []
   \<and> length (elems (predict (init_reranker example_model)
        (map (\<lambda>doc. (''q'', scoring_text doc)) [doc_empty_full, mk_chunk ''c'' ''u'' 0 0]))) = 2
   \<and> length (get_scores (init_reranker example_model) ''q'' [doc_empty_full, mk_chunk ''c'' ''u'' 0 0]) = 2
   \<and> (1/8 :: real) \<in> set (get_scores (init_reranker example_model) ''q'' [doc_empty_full, mk_chunk ''c'' ''u'' 0 0])
   \<and> (0::real) \<le> 1/8 \<and> (1/8 :: real) \<le> 1"
proof -
  let ?docs = "[doc_empty_full, mk_chunk ''c'' ''u'' 0 0]"
  have h1: "full_content doc_empty_full = Some []" by (simp add: doc_empty_full_def)
  have h2: "?docs \<noteq> []" by simp
  have h3: "length (elems (predict (init_reranker example_model)
        (map (\<lambda>doc. (''q'', scoring_text doc)) ?docs))) = length ?docs"
    by (simp add: init_reranker_def example_model_def)
  have h4: "(1/8 :: real) \<in> set (get_scores (init_reranker example_model) ''q'' ?docs)"
    by (simp only: example_scores list.set insert_iff simp_thms)
  note t = get_scores_logistic [of doc_empty_full ?docs "init_reranker example_model" "''q''"]
  from t h1 have c1: "scoring_text doc_empty_full = take 1000 (get_content doc_empty_full)"
    by blast
  from t h3 have c2: "length (get_scores (init_reranker example_model) ''q'' ?docs) = length ?docs"
    by blast
  from t h4 have c3: "(0::real) \<le> 1/8 \<and> (1/8 :: real) \<le> 1"
    by blast
  from h1 c1 h2 h3 c2 h4 c3 show ?thesis by simp
qed

section \<open>Properties of the resilient invocation\<close>

lemma failover_loop_exhausted:
  "\<forall>m \<in> set ms. counts m \<ge> maxf \<Longrightarrow>
   failover_loop llm_call maxf prompt counts attempted ms = (None, counts, attempted)"
  by (induction ms) simp_all

lemma failover_two:
  assumes "A \<noteq> B" and "counts A = 0" and "counts B = 0"
    and "llm_call A prompt = RateLimited \<or> llm_call A prompt = Failed"
    and "llm_call B prompt = Success r"
  shows "failover_loop llm_call 1 prompt counts [] [A, B]
           = (Some r, counts(A := 1, B := 0), [A, B])"
  using assms by auto

text \<open>
  Claim C7. For \<^verbatim>\<open>call_with_failover\<close> over the ordered pool \<open>[A, B]\<close> of two models with
  \<open>max_failures = 1\<close>, both eligible: if the attempt on \<open>A\<close> fails (a rate-limit signal or
  any other failure) and the attempt on \<open>B\<close> succeeds, the call returns the response of
  \<open>B\<close>, the failure count of \<open>A\<close> becomes 1 and that of \<open>B\<close> is 0. A call made when the
  failure count of every model of the pool has reached \<open>max_failures\<close> attempts no model,
  returns null and leaves the state unchanged.
\<close>

theorem call_with_failover_pool_of_two:
  "(A \<noteq> B \<and> model_pool st = [A, B] \<and> max_failures st = 1
      \<and> failure_counts st A = 0 \<and> failure_counts st B = 0
      \<and> (llm_call A prompt = RateLimited \<or> llm_call A prompt = Failed)
      \<and> llm_call B prompt = Success r
    \<longrightarrow> (case call_with_failover llm_call st prompt of
           (response, st', attempted) \<Rightarrow>
             response = Some r \<and> failure_counts st' A = 1 \<and> failure_counts st' B = 0
             \<and> attempted = [A, B] \<and> model_pool st' = [A, B] \<and> max_failures st' = 1))
   \<and> ((\<forall>m \<in> set (model_pool st). failure_counts st m \<ge> max_failures st)
    \<longrightarrow> call_with_failover llm_call st prompt = (None, st, []))"
proof (intro conjI impI)
  assume a: "A \<noteq> B \<and> model_pool st = [A, B] \<and> max_failures st = 1
      \<and> failure_counts st A = 0 \<and> failure_counts st B = 0
      \<and> (llm_call A prompt = RateLimited \<or> llm_call A prompt = Failed)
      \<and> llm_call B prompt = Success r"
  then have "failover_loop llm_call 1 prompt (failure_counts st) [] [A, B]
           = (Some r, (failure_counts st)(A := 1, B := 0), [A, B])"
    by (intro failover_two) simp_all
  with a show "case call_with_failover llm_call st prompt of
           (response, st', attempted) \<Rightarrow>
             response = Some r \<and> failure_counts st' A = 1 \<and> failure_counts st' B = 0
             \<and> attempted = [A, B] \<and> model_pool st' = [A, B] \<and> max_failures st' = 1"
    by (simp add: call_with_failover_def)
next
  assume "\<forall>m \<in> set (model_pool st). failure_counts st m \<ge> max_failures st"
  then have "failover_loop llm_call (max_failures st) prompt (failure_counts st) [] (model_pool st)
               = (None, failure_counts st, [])"
    by (rule failover_loop_exhausted)
  then show "call_with_failover llm_call st prompt = (None, st, [])"
    by (simp add: call_with_failover_def)
qed

theorem call_with_failover_pool_of_two_witness:
  "fst (call_with_failover (\<lambda>m p. if m = ''A'' then RateLimited else Success ''ok'')
          \<lparr>model_pool = [''A'', ''B''], failure_counts = (\<lambda>_. 0), max_failures = 1\<rparr> ''hi'')
     = Some ''ok''
   \<and> failure_counts (fst (snd (call_with_failover (\<lambda>m p. if m = ''A'' then RateLimited else Success ''ok'')
          \<lparr>model_pool = [''A'', ''B''], failure_counts = (\<lambda>_. 0), max_failures = 1\<rparr> ''hi''))) ''A'' = 1
   \<and> fst (call_with_failover (\<lambda>m p. if m = ''A'' then RateLimited else Success ''ok'')
          \<lparr>model_pool = [''A'', ''B''], failure_counts = (\<lambda>_. 1), max_failures = 1\<rparr> ''hi'')
     = None
   \<and> snd (snd (call_with_failover (\<lambda>m p. if m = ''A'' then RateLimited else Success ''ok'')
          \<lparr>model_pool = [''A'', ''B''], failure_counts = (\<lambda>_. 1), max_failures = 1\<rparr> ''hi''))
     = []"
proof -
  let ?llm = "\<lambda>m p. if m = ''A'' then RateLimited else Success ''ok''"
  let ?st0 = "\<lparr>model_pool = [''A'', ''B''], failure_counts = (\<lambda>_. 0), max_failures = 1\<rparr>"
  let ?st1 = "\<lparr>model_pool = [''A'', ''B''], failure_counts = (\<lambda>_. 1), max_failures = 1\<rparr>"
  have h0: "''A'' \<noteq> ''B'' \<and> model_pool ?st0 = [''A'', ''B''] \<and> max_failures ?st0 = 1
      \<and> failure_counts ?st0 ''A'' = 0 \<and> failure_counts ?st0 ''B'' = 0
      \<and> (?llm ''A'' ''hi'' = RateLimited \<or> ?llm ''A'' ''hi'' = Failed)
      \<and> ?llm ''B'' ''hi'' = Success ''ok''"
    by simp
  have h1: "\<forall>m \<in> set (model_pool ?st1). failure_counts ?st1 m \<ge> max_failures ?st1"
    by simp
  have c0: "case call_with_failover ?llm ?st0 ''hi'' of
           (response, st', attempted) \<Rightarrow>
             response = Some ''ok'' \<and> failure_counts st' ''A'' = 1 \<and> failure_counts st' ''B'' = 0
             \<and> attempted = [''A'', ''B''] \<and> model_pool st' = [''A'', ''B''] \<and> max_failures st' = 1"
    by (rule call_with_failover_pool_of_two
          [of "''A''" "''B''" ?st0 ?llm "''hi''" "''ok''", THEN conjunct1, THEN mp, OF h0])
  have c1: "call_with_failover ?llm ?st1 ''hi'' = (None, ?st1, [])"
    by (rule call_with_failover_pool_of_two
          [of "''A''" "''B''" ?st1 ?llm "''hi''" "''ok''", THEN conjunct2, THEN mp, OF h1])
  from c0 c1 show ?thesis by (simp add: case_prod_beta)
qed

section \<open>Properties of the input gate\<close>

lemma leading_run_replicate: "leading_run c (replicate n c) = n"
  by (induction n) simp_all

lemma max_run_replicate: "max_run (replicate n c) = n"
  by (induction n) (simp_all add: leading_run_replicate)

lemma too_long:
  "length q > 500 \<Longrightarrow>
   validate_and_limit (test_config sigs) windows user_id q now = (reject TooLong, windows)"
  by (simp add: validate_and_limit_def test_config_def)

lemma too_short:
  "length q < 3 \<Longrightarrow>
   validate_and_limit (test_config sigs) windows user_id q now = (reject TooShort, windows)"
  by (simp add: validate_and_limit_def test_config_def)

lemma spam_rejected:
  "validate_and_limit (test_config sigs) windows user_id (replicate 22 c) now
     = (reject AbusePattern, windows)
   \<and> max_run (replicate 22 c) > spam_run_length (test_config sigs)"
  by (simp add: validate_and_limit_def test_config_def matches_abuse_def max_run_replicate)

lemma within_window_filter:
  fixes ws :: "real list"
  assumes "\<forall>t \<in> set ws. T0 \<le> t \<and> t \<le> T0 + 60" and "T0 \<le> now" and "now \<le> T0 + 60"
  shows "filter (\<lambda>t. now - t \<le> 60) ws = ws"
proof -
  have "\<forall>t \<in> set ws. now - t \<le> 60"
  proof
    fix t assume "t \<in> set ws"
    with assms(1) have "T0 \<le> t" by simp
    with assms(3) show "now - t \<le> 60" by simp
  qed
  then show ?thesis by (simp add: filter_id_conv)
qed

lemma accept_step:
  assumes "valid_query (test_config sigs) q"
    and "\<forall>t \<in> set (windows u). T0 \<le> t \<and> t \<le> T0 + 60"
    and "T0 \<le> now" and "now \<le> T0 + 60"
    and "length (windows u) < 10"
  shows "validate_and_limit (test_config sigs) windows u q now
           = (accept, windows(u := windows u @ [now]))"
proof -
  have f: "filter (\<lambda>t. now - t \<le> 60) (windows u) = windows u"
    using assms(2,3,4) by (rule within_window_filter)
  show ?thesis
    using assms(1,5) f
    by (simp add: validate_and_limit_def test_config_def valid_query_def Let_def)
qed

lemma reject_step:
  assumes "valid_query (test_config sigs) q"
    and "\<forall>t \<in> set (windows u). T0 \<le> t \<and> t \<le> T0 + 60"
    and "T0 \<le> now" and "now \<le> T0 + 60"
    and "length (windows u) \<ge> 10"
  shows "validate_and_limit (test_config sigs) windows u q now
           = (reject RateLimitExceeded, windows)"
proof -
  have f: "filter (\<lambda>t. now - t \<le> 60) (windows u) = windows u"
    using assms(2,3,4) by (rule within_window_filter)
  show ?thesis
    using assms(1,5) f
    by (simp add: validate_and_limit_def test_config_def valid_query_def Let_def)
qed

lemma other_user_step:
  assumes "valid_query (test_config sigs) q" and "length (windows v) < 10"
  shows "fst (validate_and_limit (test_config sigs) windows v q now) = accept"
proof -
  have "length (filter (\<lambda>t. now - t \<le> 60) (windows v)) \<le> length (windows v)"
    by (rule length_filter_le)
  then have "length (filter (\<lambda>t. now - t \<le> 60) (windows v)) < 10"
    using assms(2) by (rule le_less_trans)
  with assms(1) show ?thesis
    by (simp add: validate_and_limit_def test_config_def valid_query_def Let_def)
qed

lemma validate_all_accepts:
  assumes "\<forall>(q, t) \<in> set reqs. valid_query (test_config sigs) q \<and> T0 \<le> t \<and> t \<le> T0 + 60"
    and "\<forall>t \<in> set (windows u). T0 \<le> t \<and> t \<le> T0 + 60"
    and "length (windows u) + length reqs \<le> 10"
  shows "fst (validate_all (test_config sigs) windows (map (\<lambda>(q, t). (u, q, t)) reqs))
           = replicate (length reqs) accept
         \<and> snd (validate_all (test_config sigs) windows (map (\<lambda>(q, t). (u, q, t)) reqs)) u
           = windows u @ map snd reqs
         \<and> (\<forall>v. v \<noteq> u \<longrightarrow>
              snd (validate_all (test_config sigs) windows (map (\<lambda>(q, t). (u, q, t)) reqs)) v
                = windows v)"
  using assms
proof (induction reqs arbitrary: windows)
  case Nil
  then show ?case by simp
next
  case (Cons r reqs)
  obtain q t where r: "r = (q, t)" by (cases r)
  from Cons.prems(1) r have v: "valid_query (test_config sigs) q" and t: "T0 \<le> t" "t \<le> T0 + 60"
    by simp_all
  from Cons.prems(3) have lt: "length (windows u) < 10" by simp
  define w where "w = windows(u := windows u @ [t])"
  have step: "validate_and_limit (test_config sigs) windows u q t = (accept, w)"
    unfolding w_def using v Cons.prems(2) t lt by (rule accept_step)
  have wu: "w u = windows u @ [t]" and wv: "\<And>v. v \<noteq> u \<Longrightarrow> w v = windows v"
    by (simp_all add: w_def)
  have ih: "fst (validate_all (test_config sigs) w (map (\<lambda>(q, t). (u, q, t)) reqs))
           = replicate (length reqs) accept
         \<and> snd (validate_all (test_config sigs) w (map (\<lambda>(q, t). (u, q, t)) reqs)) u
           = w u @ map snd reqs
         \<and> (\<forall>v. v \<noteq> u \<longrightarrow>
              snd (validate_all (test_config sigs) w (map (\<lambda>(q, t). (u, q, t)) reqs)) v = w v)"
  proof (rule Cons.IH)
    show "\<forall>(q, t) \<in> set reqs. valid_query (test_config sigs) q \<and> T0 \<le> t \<and> t \<le> T0 + 60"
      using Cons.prems(1) by simp
    show "\<forall>t \<in> set (w u). T0 \<le> t \<and> t \<le> T0 + 60"
      using Cons.prems(2) t by (simp add: wu)
    show "length (w u) + length reqs \<le> 10"
      using Cons.prems(3) by (simp add: wu)
  qed
  have unfold: "validate_all (test_config sigs) windows (map (\<lambda>(q, t). (u, q, t)) (r # reqs))
          = (accept # fst (validate_all (test_config sigs) w (map (\<lambda>(q, t). (u, q, t)) reqs)),
             snd (validate_all (test_config sigs) w (map (\<lambda>(q, t). (u, q, t)) reqs)))"
    using step r by (simp add: case_prod_beta)
  show ?case
    unfolding unfold using ih wu wv r by simp
qed


lemma eleventh_request:
  assumes len: "length reqs = 10"
    and reqs: "\<forall>(q', t) \<in> set reqs. valid_query (test_config sigs) q' \<and> T0 \<le> t \<and> t \<le> T0 + 60"
    and q11: "valid_query (test_config sigs) q11" and t11: "T0 \<le> t11" "t11 \<le> T0 + 60"
    and wu: "windows u = []" and vu: "v \<noteq> u" and wv: "length (windows v) < 10"
  shows "fst (validate_all (test_config sigs) windows (map (\<lambda>(q', t). (u, q', t)) reqs))
           = replicate 10 accept"
    and "fst (validate_and_limit (test_config sigs)
               (snd (validate_all (test_config sigs) windows (map (\<lambda>(q', t). (u, q', t)) reqs)))
               u q11 t11) = reject RateLimitExceeded"
    and "fst (validate_and_limit (test_config sigs)
               (snd (validate_all (test_config sigs) windows (map (\<lambda>(q', t). (u, q', t)) reqs)))
               v q11 t11) = accept"
proof -
  let ?w = "snd (validate_all (test_config sigs) windows (map (\<lambda>(q', t). (u, q', t)) reqs))"
  have "\<forall>t \<in> set (windows u). T0 \<le> t \<and> t \<le> T0 + 60" using wu by simp
  moreover have "length (windows u) + length reqs \<le> 10" using wu len by simp
  ultimately have run:
    "fst (validate_all (test_config sigs) windows (map (\<lambda>(q', t). (u, q', t)) reqs))
       = replicate (length reqs) accept
     \<and> ?w u = windows u @ map snd reqs
     \<and> (\<forall>v. v \<noteq> u \<longrightarrow> ?w v = windows v)"
    using reqs by (intro validate_all_accepts)
  from run len show "fst (validate_all (test_config sigs) windows (map (\<lambda>(q', t). (u, q', t)) reqs))
           = replicate 10 accept"
    by simp
  from run wu have u': "?w u = map snd reqs" by simp
  have "\<forall>t \<in> set (?w u). T0 \<le> t \<and> t \<le> T0 + 60"
    unfolding u' using reqs by auto
  moreover have "length (?w u) \<ge> 10" unfolding u' using len by simp
  ultimately have "validate_and_limit (test_config sigs) ?w u q11 t11 = (reject RateLimitExceeded, ?w)"
    using q11 t11 by (intro reject_step)
  then show "fst (validate_and_limit (test_config sigs) ?w u q11 t11) = reject RateLimitExceeded"
    by simp
  from run vu have "?w v = windows v" by simp
  with wv have "length (?w v) < 10" by simp
  with q11 show "fst (validate_and_limit (test_config sigs) ?w v q11 t11) = accept"
    by (rule other_user_step)
qed

text \<open>
  Claim C8. With \<open>min_length = 3\<close>, \<open>max_length = 500\<close>, \<open>max_requests = 10\<close> and
  \<open>window_seconds = 60\<close>, \<^verbatim>\<open>validate_and_limit\<close> rejects every query longer than 500
  characters with the reason "too long" and every query shorter than 3 characters with the
  reason "too short"; a query of 22 identical characters is rejected by the abuse-pattern
  check, its run of one repeated character being longer than the configured run length;
  and when a user, starting from an empty window, has sent ten valid requests within one
  60-second window, all ten are allowed, the eleventh request of that user in the same
  window is rejected by the rate limit, and the same request from a different user (with
  fewer than ten recorded requests) is allowed.
\<close>

theorem validate_and_limit_gate:
  "(length q > 500 \<longrightarrow>
      fst (validate_and_limit (test_config sigs) windows user_id q now) = reject TooLong)
   \<and> (length q < 3 \<longrightarrow>
      fst (validate_and_limit (test_config sigs) windows user_id q now) = reject TooShort)
   \<and> fst (validate_and_limit (test_config sigs) windows user_id (replicate 22 c) now)
       = reject AbusePattern
   \<and> max_run (replicate 22 c) > spam_run_length (test_config sigs)
   \<and> (length reqs = 10
       \<and> (\<forall>(q', t) \<in> set reqs. valid_query (test_config sigs) q' \<and> T0 \<le> t \<and> t \<le> T0 + 60)
       \<and> valid_query (test_config sigs) q11 \<and> T0 \<le> t11 \<and> t11 \<le> T0 + 60
       \<and> windows u = [] \<and> v \<noteq> u \<and> length (windows v) < 10
      \<longrightarrow> fst (validate_all (test_config sigs) windows (map (\<lambda>(q', t). (u, q', t)) reqs))
            = replicate 10 accept
        \<and> fst (validate_and_limit (test_config sigs)
               (snd (validate_all (test_config sigs) windows (map (\<lambda>(q', t). (u, q', t)) reqs)))
               u q11 t11) = reject RateLimitExceeded
        \<and> fst (validate_and_limit (test_config sigs)
               (snd (validate_all (test_config sigs) windows (map (\<lambda>(q', t). (u, q', t)) reqs)))
               v q11 t11) = accept)"
proof -
  have p1: "length q > 500 \<longrightarrow>
      fst (validate_and_limit (test_config sigs) windows user_id q now) = reject TooLong"
    by (simp add: too_long)
  have p2: "length q < 3 \<longrightarrow>
      fst (validate_and_limit (test_config sigs) windows user_id q now) = reject TooShort"
    by (simp add: too_short)
  have p3: "fst (validate_and_limit (test_config sigs) windows user_id (replicate 22 c) now)
       = reject AbusePattern"
    using spam_rejected [of sigs windows user_id c now] by simp
  have p4: "max_run (replicate 22 c) > spam_run_length (test_config sigs)"
    using spam_rejected [of sigs windows user_id c now] by simp
  have p5: "length reqs = 10
       \<and> (\<forall>(q', t) \<in> set reqs. valid_query (test_config sigs) q' \<and> T0 \<le> t \<and> t \<le> T0 + 60)
       \<and> valid_query (test_config sigs) q11 \<and> T0 \<le> t11 \<and> t11 \<le> T0 + 60
       \<and> windows u = [] \<and> v \<noteq> u \<and> length (windows v) < 10
      \<longrightarrow> fst (validate_all (test_config sigs) windows (map (\<lambda>(q', t). (u, q', t)) reqs))
            = replicate 10 accept
        \<and> fst (validate_and_limit (test_config sigs)
               (snd (validate_all (test_config sigs) windows (map (\<lambda>(q', t). (u, q', t)) reqs)))
               u q11 t11) = reject RateLimitExceeded
        \<and> fst (validate_and_limit (test_config sigs)
               (snd (validate_all (test_config sigs) windows (map (\<lambda>(q', t). (u, q', t)) reqs)))
               v q11 t11) = accept"
  proof
    assume a: "length reqs = 10
       \<and> (\<forall>(q', t) \<in> set reqs. valid_query (test_config sigs) q' \<and> T0 \<le> t \<and> t \<le> T0 + 60)
       \<and> valid_query (test_config sigs) q11 \<and> T0 \<le> t11 \<and> t11 \<le> T0 + 60
       \<and> windows u = [] \<and> v \<noteq> u \<and> length (windows v) < 10"
    from a have len: "length reqs = 10" by (rule conjunct1)
    from a have reqs: "\<forall>(q', t) \<in> set reqs. valid_query (test_config sigs) q' \<and> T0 \<le> t \<and> t \<le> T0 + 60"
      by blast
    from a have q11: "valid_query (test_config sigs) q11" by blast
    from a have t11a: "T0 \<le> t11" and t11b: "t11 \<le> T0 + 60" by blast+
    from a have wu: "windows u = []" and vu: "v \<noteq> u" and wv: "length (windows v) < 10"
      by blast+
    note e = eleventh_request [OF len reqs q11 t11a t11b wu vu wv]
    from e show "fst (validate_all (test_config sigs) windows (map (\<lambda>(q', t). (u, q', t)) reqs))
            = replicate 10 accept
        \<and> fst (validate_and_limit (test_config sigs)
               (snd (validate_all (test_config sigs) windows (map (\<lambda>(q', t). (u, q', t)) reqs)))
               u q11 t11) = reject RateLimitExceeded
        \<and> fst (validate_and_limit (test_config sigs)
               (snd (validate_all (test_config sigs) windows (map (\<lambda>(q', t). (u, q', t)) reqs)))
               v q11 t11) = accept"
      by (intro conjI)
  qed
  from p1 p2 p3 p4 p5 show ?thesis by (intro conjI)
qed

lemma hello_valid: "valid_query (test_config []) ''hello''"
  by (simp add: valid_query_def test_config_def matches_abuse_def)

theorem validate_and_limit_gate_witness:
  "length (replicate 600 CHR ''a'') > 500
   \<and> fst (validate_and_limit (test_config []) (\<lambda>_. []) ''user1'' (replicate 600 CHR ''a'') 0)
       = reject TooLong
   \<and> length ''Hi'' < 3
   \<and> fst (validate_and_limit (test_config []) (\<lambda>_. []) ''user2'' ''Hi'' 0) = reject TooShort
   \<and> length ten_requests = 10
   \<and> fst (validate_all (test_config []) (\<lambda>_. []) (map (\<lambda>(q', t). (''u1'', q', t)) ten_requests))
       = replicate 10 accept
   \<and> fst (validate_and_limit (test_config [])
          (snd (validate_all (test_config []) (\<lambda>_. []) (map (\<lambda>(q', t). (''u1'', q', t)) ten_requests)))
          ''u1'' ''hello'' 10) = reject RateLimitExceeded
   \<and> fst (validate_and_limit (test_config [])
          (snd (validate_all (test_config []) (\<lambda>_. []) (map (\<lambda>(q', t). (''u1'', q', t)) ten_requests)))
          ''u2'' ''hello'' 10) = accept"
proof -
  have h1: "length (replicate 600 CHR ''a'') > 500" by simp
  have h2: "length ''Hi'' < 3" by simp
  have h3: "length ten_requests = 10" by (simp add: ten_requests_def)
  have h4: "length ten_requests = 10
       \<and> (\<forall>(q', t) \<in> set ten_requests. valid_query (test_config []) q' \<and> 0 \<le> t \<and> t \<le> 0 + 60)
       \<and> valid_query (test_config []) ''hello'' \<and> (0::real) \<le> 10 \<and> (10::real) \<le> 0 + 60
       \<and> (\<lambda>_. []) ''u1'' = ([] :: real list) \<and> ''u2'' \<noteq> ''u1''
       \<and> length ((\<lambda>_. []) ''u2'' :: real list) < 10"
    by (simp add: ten_requests_def hello_valid)
  have c1: "fst (validate_and_limit (test_config []) (\<lambda>_. []) ''user1'' (replicate 600 CHR ''a'') 0)
       = reject TooLong"
    by (rule validate_and_limit_gate
          [of "replicate 600 CHR ''a''" "[]" "\<lambda>_. []" "''user1''" 0, THEN conjunct1, THEN mp, OF h1])
  have c2: "fst (validate_and_limit (test_config []) (\<lambda>_. []) ''user2'' ''Hi'' 0) = reject TooShort"
    by (rule validate_and_limit_gate
          [of "''Hi''" "[]" "\<lambda>_. []" "''user2''" 0, THEN conjunct2, THEN conjunct1, THEN mp, OF h2])
  note c3 = validate_and_limit_gate
          [where sigs="[]" and windows="\<lambda>_. []" and reqs=ten_requests and ?T0.0=0
             and ?q11.0="''hello''" and ?t11.0=10 and u="''u1''" and v="''u2''",
           THEN conjunct2, THEN conjunct2, THEN conjunct2, THEN conjunct2, THEN mp, OF h4]
  from h1 c1 h2 c2 h3 c3 show ?thesis by (intro conjI) simp_all
qed

end
